theory Spec2Isabelle
  imports Complex_Main "HOL-Library.Stream" "HOL-Library.AList"
begin

section \<open>The e-commerce dataset generator (dataset\_generator.py)\<close>

text \<open>
  The generator is a Python script whose only inputs are the catalog (users, products,
  categories) and the pseudo-random draws of \<^verbatim>\<open>random\<close>, \<^verbatim>\<open>uuid\<close> and
  \<^verbatim>\<open>Faker\<close>.  The draws are modelled by an explicit, infinite supply of natural numbers
  that every drawing function consumes from the front; a property proved for every
  supply holds for every outcome of the draws.  A float is modelled by the rational
  number it stands for, time in whole seconds relative to the moment of the run.
\<close>

subsection \<open>Errors and the error monad\<close>

datatype error = IndexError | TypeError | KeyError

definition bindE :: "error + 'a \<Rightarrow> ('a \<Rightarrow> error + 'b) \<Rightarrow> error + 'b" where
  "bindE m f = (case m of Inl e \<Rightarrow> Inl e | Inr x \<Rightarrow> f x)"

subsection \<open>The random module\<close>

type_synonym rng = "nat stream"

text \<open>\<^verbatim>\<open>random._randbelow(n)\<close>, for \<open>n > 0\<close>: a number below \<open>n\<close>.\<close>

definition randbelow :: "nat \<Rightarrow> rng \<Rightarrow> nat \<times> rng" where
  "randbelow n g = (shd g mod n, stl g)"

text \<open>\<^verbatim>\<open>random.choice(seq)\<close> raises IndexError on an empty sequence.\<close>

definition choice :: "'a list \<Rightarrow> rng \<Rightarrow> error + ('a \<times> rng)" where
  "choice xs g =
     (if xs = [] then Inl IndexError
      else (case randbelow (length xs) g of (j, g') \<Rightarrow> Inr (xs ! j, g')))"

text \<open>
  \<^verbatim>\<open>random.randint(a, b)\<close>: an integer of the closed range \<open>[a, b]\<close>.  Every call of the
  script has \<open>a \<le> b\<close> (constant bounds, \<open>max(2, _)\<close>, or the guard \<open>max_possible > 0\<close>).
\<close>

definition randint :: "int \<Rightarrow> int \<Rightarrow> rng \<Rightarrow> int \<times> rng" where
  "randint a b g = (a + int (shd g mod nat (b - a + 1)), stl g)"

text \<open>\<^verbatim>\<open>random.random()\<close>: a multiple of \<open>2\<^sup>-\<^sup>5\<^sup>3\<close> in \<open>[0, 1)\<close>.\<close>

definition random_unit :: "rng \<Rightarrow> rat \<times> rng" where
  "random_unit g = (of_nat (shd g mod 2 ^ 53) / 2 ^ 53, stl g)"

text \<open>
  \<^verbatim>\<open>random.choices(population, weights)[0]\<close>: the cumulative weights are bisected at
  \<open>random() * total\<close>, the index bounded by the last position.
\<close>

fun accumulate :: "rat \<Rightarrow> rat list \<Rightarrow> rat list" where
  "accumulate acc [] = []"
| "accumulate acc (w # ws) = (acc + w) # accumulate (acc + w) ws"

fun bisect :: "rat list \<Rightarrow> rat \<Rightarrow> nat" where
  "bisect [] x = 0"
| "bisect (c # cs) x = (if x < c then 0 else Suc (bisect cs x))"

definition choices :: "'a list \<Rightarrow> rat list \<Rightarrow> rng \<Rightarrow> 'a \<times> rng" where
  "choices population weights g =
     (case random_unit g of (u, g') \<Rightarrow>
        (let cum_weights = accumulate 0 weights;
             total = last cum_weights;
             hi = length population - 1
         in (population ! min (bisect cum_weights (u * total)) hi, g')))"

text \<open>
  \<^verbatim>\<open>random.sample(population, k)\<close> for \<open>k \<le> len(population)\<close>: \<open>k\<close> positions are taken
  from a shrinking pool, so no position is taken twice.  (For a large population the
  library draws positions and rejects repeats instead; either way the result is \<open>k\<close>
  elements at distinct positions, and the pool reaches every such choice.)
\<close>

fun sample :: "'a list \<Rightarrow> nat \<Rightarrow> rng \<Rightarrow> 'a list \<times> rng" where
  "sample pool 0 g = ([], g)"
| "sample pool (Suc k) g =
     (case randbelow (length pool) g of (j, g') \<Rightarrow>
        (case sample (butlast (pool[j := last pool])) k g' of (rest, g'') \<Rightarrow>
           (pool ! j # rest, g'')))"

text \<open>
  \<^verbatim>\<open>uuid.uuid4()\<close> identifiers and Faker's values (\<^verbatim>\<open>fake.ipv4()\<close>,
  \<^verbatim>\<open>fake.date_time_between\<close>) come from outside the script; each is one more draw, and an
  identifier or address is the number drawn.  \<^verbatim>\<open>fake.date_time_between("-Nd", "now")\<close> is
  a time in the last \<open>N\<close> days, in seconds relative to now; the ISO-8601 rendering of a time
  is not modelled.
\<close>

definition uuid4 :: "rng \<Rightarrow> nat \<times> rng" where
  "uuid4 g = (shd g, stl g)"

definition ipv4 :: "rng \<Rightarrow> nat \<times> rng" where
  "ipv4 g = (shd g, stl g)"

definition date_time_between :: "nat \<Rightarrow> rng \<Rightarrow> int \<times> rng" where
  "date_time_between days g = (- int (shd g mod (days * 86400 + 1)), stl g)"

subsection \<open>Floats\<close>

text \<open>
  A Python float is a binary64 number.  It is modelled by the rational number it stands
  for, and an operation on floats by the exact operation followed by the rounding of the
  format: to the nearest number of 53 significant bits, a tie to the one whose last bit
  is 0.  The range of the exponent is not modelled: the amounts of a run (prices up to
  500, quantities up to the stock) are far from overflow and from the subnormal numbers.
  The amounts of money go through these operations.  The thresholds of the rolls and the
  weights of \<^verbatim>\<open>random.choices\<close> are the decimal numbers that the script writes, not the
  floats nearest to them, which moves the boundary of a roll by less than \<open>2\<^sup>-\<^sup>5\<^sup>2\<close>.
\<close>

text \<open>\<^verbatim>\<open>int.bit_length()\<close>: the number of binary digits of a natural number.\<close>

function bit_length :: "nat \<Rightarrow> nat" where
  "bit_length n = (if n = 0 then 0 else Suc (bit_length (n div 2)))"
  by pat_completeness auto
termination
  by (relation "measure (\<lambda>n. n)") auto

declare bit_length.simps [simp del]

text \<open>The binary exponent of a positive number \<open>x\<close>: the \<open>e\<close> with \<open>2\<^sup>e \<le> x < 2\<^sup>e\<^sup>+\<^sup>1\<close>.\<close>

definition exponent :: "rat \<Rightarrow> int" where
  "exponent x =
     (if 1 \<le> x then int (bit_length (nat \<lfloor>x\<rfloor>)) - 1
      else - int (bit_length (nat (\<lceil>1 / x\<rceil> - 1))))"

text \<open>To the nearest integer, a tie to the even one.\<close>

definition round_half_even :: "rat \<Rightarrow> int" where
  "round_half_even x =
     (let f = \<lfloor>x\<rfloor>; d = x - of_int f
      in if d < 1 / 2 then f else if 1 / 2 < d then f + 1
         else if even f then f else f + 1)"

text \<open>
  The float nearest to a number: the value of a literal such as \<^verbatim>\<open>0.05\<close>, and the
  rounding that ends every operation.
\<close>

definition float64 :: "rat \<Rightarrow> rat" where
  "float64 x =
     (if x = 0 then 0
      else (let ulp = 2 powi (exponent \<bar>x\<bar> - 52)
            in sgn x * of_int (round_half_even (\<bar>x\<bar> / ulp)) * ulp))"

definition fadd :: "rat \<Rightarrow> rat \<Rightarrow> rat" where
  "fadd x y = float64 (x + y)"

definition fsub :: "rat \<Rightarrow> rat \<Rightarrow> rat" where
  "fsub x y = float64 (x - y)"

definition fmul :: "rat \<Rightarrow> rat \<Rightarrow> rat" where
  "fmul x y = float64 (x * y)"

text \<open>The conversion of an int that meets a float in an operation.\<close>

definition float_of_int :: "int \<Rightarrow> rat" where
  "float_of_int n = float64 (of_int n)"

text \<open>
  \<^verbatim>\<open>round(x, 2)\<close> on a float: the float nearest to the number of two decimal places
  that is nearest to the exact value of \<open>x\<close>, a tie to the even last digit.  (CPython
  rounds a float correctly, through its exact decimal expansion.)
\<close>

definition round2 :: "rat \<Rightarrow> rat" where
  "round2 x = float64 (of_int (round_half_even (x * 100)) / 100)"

text \<open>
  The built-in \<^verbatim>\<open>sum\<close> over floats: from the int 0, the floats are added from left to
  right and every addition is rounded.  (This is CPython before version 3.12; later
  versions compensate the rounding errors of the additions, which can change the last
  bit of a sum of several floats.)
\<close>

definition float_sum :: "rat list \<Rightarrow> rat" where
  "float_sum xs = foldl fadd 0 xs"

subsection \<open>Records of the data set\<close>

record product =
  product_id :: string
  category_id :: string
  base_price :: rat
  current_stock :: int
  is_active :: bool

record category =
  cat_category_id :: string

record user =
  user_id :: string

record page_view =
  timestamp :: int
  page_type :: string
  pv_product_id :: "string option"
  pv_category_id :: "string option"
  view_duration :: int

record cart_entry =
  quantity :: int
  price :: rat

type_synonym cart = "(string \<times> cart_entry) list"

record session =
  session_id :: nat
  s_user_id :: string
  start_time :: int
  end_time :: int
  duration_seconds :: int
  ip_address :: nat
  device_profile :: "string \<times> string \<times> string"
  viewed_products :: "string set"
  page_views :: "page_view list"
  cart_contents :: cart
  conversion_status :: string
  referrer :: string

record transaction_item =
  ti_product_id :: string
  ti_quantity :: int
  unit_price :: rat
  ti_subtotal :: rat

record transaction =
  transaction_id :: nat
  t_session_id :: "nat option"
  t_user_id :: string
  t_timestamp :: int
  items :: "transaction_item list"
  subtotal :: rat
  discount :: rat
  total :: rat
  payment_method :: string
  status :: string

subsection \<open>InventoryManager\<close>

text \<open>
  The product dictionaries are shared objects: the list \<^verbatim>\<open>products\<close> and the values of
  \<^verbatim>\<open>InventoryManager.products\<close> are the same objects.  The store is the list of the
  product objects (an object is its position), and the manager's dictionary maps a
  product id to the position of its object.  The lock serialises the calls; each call is
  one atomic step on the store.
\<close>

type_synonym store = "product list"
type_synonym inventory = "string \<rightharpoonup> nat"

definition InventoryManager_init :: "store \<Rightarrow> inventory" where
  "InventoryManager_init products =
     fold (\<lambda>(i, p) m. m(product_id p \<mapsto> i)) (enumerate 0 products) Map.empty"

definition update_stock :: "inventory \<Rightarrow> store \<Rightarrow> string \<Rightarrow> int \<Rightarrow> bool \<times> store" where
  "update_stock ivm h pid qty =
     (case ivm pid of
        None \<Rightarrow> (False, h)
      | Some i \<Rightarrow>
          if current_stock (h ! i) \<ge> qty
          then (True, h[i := (h ! i)\<lparr>current_stock := current_stock (h ! i) - qty\<rparr>])
          else (False, h))"

definition get_product :: "inventory \<Rightarrow> store \<Rightarrow> string \<Rightarrow> product option" where
  "get_product ivm h pid = map_option (\<lambda>i. h ! i) (ivm pid)"

subsection \<open>Helper functions\<close>

definition determine_page_type :: "nat \<Rightarrow> page_view list \<Rightarrow> rng \<Rightarrow> error + (string \<times> rng)" where
  "determine_page_type position previous_pages g =
     (if position = 0 then choice [''home'', ''search'', ''category_listing''] g
      else
        (let prev_page = (if previous_pages \<noteq> [] then page_type (last previous_pages) else ''home'')
         in if prev_page = ''home'' then
              Inr (choices [''category_listing'', ''search'', ''product_detail'']
                     [5 / 10, 3 / 10, 2 / 10] g)
            else if prev_page = ''category_listing'' then
              Inr (choices [''product_detail'', ''category_listing'', ''search'', ''home'']
                     [7 / 10, 1 / 10, 1 / 10, 1 / 10] g)
            else if prev_page = ''search'' then
              Inr (choices [''product_detail'', ''search'', ''category_listing'', ''home'']
                     [6 / 10, 2 / 10, 1 / 10, 1 / 10] g)
            else if prev_page = ''product_detail'' then
              Inr (choices [''product_detail'', ''cart'', ''category_listing'', ''search'', ''home'']
                     [3 / 10, 3 / 10, 2 / 10, 1 / 10, 1 / 10] g)
            else if prev_page = ''cart'' then
              Inr (choices [''checkout'', ''product_detail'', ''category_listing'', ''home'']
                     [6 / 10, 2 / 10, 1 / 10, 1 / 10] g)
            else if prev_page = ''checkout'' then
              Inr (choices [''confirmation'', ''cart'', ''home''] [8 / 10, 1 / 10, 1 / 10] g)
            else if prev_page = ''confirmation'' then
              Inr (choices [''home'', ''product_detail'', ''category_listing'']
                     [6 / 10, 2 / 10, 2 / 10] g)
            else Inr (''home'', g)))"

text \<open>\<^verbatim>\<open>next((c for c in categories_list if c["category_id"] == cid), None)\<close>\<close>

definition category_of :: "category list \<Rightarrow> string \<Rightarrow> category option" where
  "category_of categories_list cid = find (\<lambda>c. cat_category_id c = cid) categories_list"

text \<open>
  The ten attempts of \<^verbatim>\<open>get_page_content\<close> at an active product in stock; a product is
  returned as the position of its object in the store.
\<close>

fun sellable_product :: "nat \<Rightarrow> store \<Rightarrow> rng \<Rightarrow> error + (nat option \<times> rng)" where
  "sellable_product 0 h g = Inr (None, g)"
| "sellable_product (Suc n) h g =
     bindE (choice [0..<length h] g) (\<lambda>(i, g').
       if is_active (h ! i) \<and> current_stock (h ! i) > 0 then Inr (Some i, g')
       else sellable_product n h g')"

definition get_page_content ::
  "string \<Rightarrow> store \<Rightarrow> category list \<Rightarrow> rng \<Rightarrow> error + ((nat option \<times> category option) \<times> rng)" where
  "get_page_content pt h categories_list g =
     (if pt = ''product_detail'' then
        bindE (sellable_product 10 h g) (\<lambda>(found, g').
          case found of
            Some i \<Rightarrow> Inr ((Some i, category_of categories_list (category_id (h ! i))), g')
          | None \<Rightarrow>
              bindE (choice [0..<length h] g') (\<lambda>(i, g'').
                Inr ((Some i, category_of categories_list (category_id (h ! i))), g'')))
      else if pt = ''category_listing'' then
        bindE (choice categories_list g) (\<lambda>(c, g'). Inr ((None, Some c), g'))
      else Inr ((None, None), g))"

subsection \<open>Configuration\<close>

record config =
  NUM_SESSIONS :: nat
  NUM_TRANSACTIONS :: nat
  TIMESPAN_DAYS :: nat

definition TEST :: config where
  "TEST = \<lparr>NUM_SESSIONS = 50000, NUM_TRANSACTIONS = 10000, TIMESPAN_DAYS = 90\<rparr>"

definition SUBMISSION :: config where
  "SUBMISSION = \<lparr>NUM_SESSIONS = 300000, NUM_TRANSACTIONS = 80000, TIMESPAN_DAYS = 90\<rparr>"

definition MAX_ITERATIONS :: "config \<Rightarrow> nat" where
  "MAX_ITERATIONS cfg = (NUM_SESSIONS cfg + NUM_TRANSACTIONS cfg) * 3"

subsection \<open>One session (lines 270 to 341)\<close>

text \<open>The list comprehension of \<open>n_views\<close> offsets, each \<^verbatim>\<open>random.randint(1, hi)\<close>.\<close>

fun draw_offsets :: "nat \<Rightarrow> int \<Rightarrow> rng \<Rightarrow> int list \<times> rng" where
  "draw_offsets 0 hi g = ([], g)"
| "draw_offsets (Suc n) hi g =
     (case randint 1 hi g of (x, g') \<Rightarrow>
        (case draw_offsets n hi g' of (xs, g'') \<Rightarrow> (x # xs, g'')))"

text \<open>\<^verbatim>\<open>sorted(set([0] + offsets + [session_duration]))\<close>\<close>

definition time_slots_of :: "int \<Rightarrow> int list \<Rightarrow> int list" where
  "time_slots_of session_duration offsets = sort (remdups ([0] @ offsets @ [session_duration]))"

text \<open>
  The add-to-cart block (lines 297 to 304), for the product object at position \<open>p\<close>.
  The subscript of \<^verbatim>\<open>inventory.get_product(pid)\<close> raises TypeError on None.
\<close>

definition add_to_cart :: "inventory \<Rightarrow> store \<Rightarrow> nat \<Rightarrow> cart \<Rightarrow> rng \<Rightarrow> error + (cart \<times> rng)" where
  "add_to_cart ivm h p cart g =
     (let pid = product_id (h ! p);
          cart1 = (if map_of cart pid = None
                   then AList.update pid \<lparr>quantity = 0, price = base_price (h ! p)\<rparr> cart
                   else cart)
      in case get_product ivm h pid of
           None \<Rightarrow> Inl TypeError
         | Some ledger_product \<Rightarrow>
             (case map_of cart1 pid of
                None \<Rightarrow> Inl KeyError
              | Some entry \<Rightarrow>
                  (let stock_left = current_stock ledger_product - quantity entry;
                       max_possible = min 3 stock_left
                   in if max_possible > 0
                      then (case randint 1 max_possible g of (n, g') \<Rightarrow>
                              Inr (AList.update pid (entry\<lparr>quantity := quantity entry + n\<rparr>) cart1, g'))
                      else Inr (cart1, g))))"

type_synonym view_state = "page_view list \<times> string set \<times> cart \<times> rng"

text \<open>One pass of the page-view loop (lines 286 to 312), for slot \<open>i\<close>.\<close>

definition page_view_step ::
  "inventory \<Rightarrow> store \<Rightarrow> category list \<Rightarrow> int \<Rightarrow> int list \<Rightarrow> nat \<Rightarrow> view_state \<Rightarrow> error + view_state" where
  "page_view_step ivm h categories_list session_start time_slots i = (\<lambda>(pvs, viewed, cart, g).
     (let vd = time_slots ! (i + 1) - time_slots ! i in
      bindE (determine_page_type i pvs g) (\<lambda>(pt, g1).
      bindE (get_page_content pt h categories_list g1) (\<lambda>((product, category), g2).
      bindE (case product of
               Some p \<Rightarrow>
                 if pt = ''product_detail'' then
                   (case random_unit g2 of (u, g3) \<Rightarrow>
                      if u < 3 / 10
                      then bindE (add_to_cart ivm h p cart g3) (\<lambda>(cart', g4).
                             Inr (insert (product_id (h ! p)) viewed, cart', g4))
                      else Inr (insert (product_id (h ! p)) viewed, cart, g3))
                 else Inr (viewed, cart, g2)
             | None \<Rightarrow> Inr (viewed, cart, g2)) (\<lambda>(viewed', cart', g5).
      Inr (pvs @ [\<lparr>timestamp = session_start + time_slots ! i,
                    page_type = pt,
                    pv_product_id = map_option (\<lambda>p. product_id (h ! p)) product,
                    pv_category_id = map_option cat_category_id category,
                    view_duration = vd\<rparr>],
           viewed', cart', g5))))))"

fun page_view_loop ::
  "inventory \<Rightarrow> store \<Rightarrow> category list \<Rightarrow> int \<Rightarrow> int list \<Rightarrow> nat list \<Rightarrow> view_state \<Rightarrow> error + view_state" where
  "page_view_loop ivm h cs s0 ts [] vs = Inr vs"
| "page_view_loop ivm h cs s0 ts (i # is) vs =
     bindE (page_view_step ivm h cs s0 ts i vs) (page_view_loop ivm h cs s0 ts is)"

text \<open>
  What the session part of an iteration leaves for the rest of it: the emitted record, and
  the variables \<^verbatim>\<open>user\<close>, \<^verbatim>\<open>cart_contents\<close> (not filtered), \<^verbatim>\<open>converted\<close>.
\<close>

record session_result =
  sr_session :: session
  sr_user :: user
  sr_cart :: cart
  sr_converted :: bool

text \<open>The conversion logic (lines 315 to 317); the draw is made only for a candidate.\<close>

definition conversion_logic :: "cart \<Rightarrow> page_view list \<Rightarrow> rng \<Rightarrow> bool \<times> rng" where
  "conversion_logic cart pvs g =
     (if cart \<noteq> [] \<and> (\<exists>p \<in> set pvs. page_type p \<in> {''checkout'', ''confirmation''})
      then (case random_unit g of (u, g') \<Rightarrow> (u < 7 / 10, g'))
      else (False, g))"

text \<open>The session record (lines 319 to 339), with its draws in the order of the script.\<close>

definition session_record ::
  "nat \<Rightarrow> user \<Rightarrow> int \<Rightarrow> int \<Rightarrow> string set \<Rightarrow> page_view list \<Rightarrow> cart \<Rightarrow> bool \<Rightarrow> rng
     \<Rightarrow> error + (session \<times> rng)" where
  "session_record sid usr session_start session_duration viewed pvs cart converted g =
     (case ipv4 g of (ip, g1) \<Rightarrow>
      bindE (choice [''mobile'', ''desktop'', ''tablet''] g1) (\<lambda>(dev, g2).
      bindE (choice [''iOS'', ''Android'', ''Windows'', ''macOS''] g2) (\<lambda>(os, g3).
      bindE (choice [''Chrome'', ''Safari'', ''Firefox'', ''Edge''] g3) (\<lambda>(browser, g4).
      bindE (choice [''direct'', ''email'', ''social'', ''search_engine'', ''affiliate''] g4) (\<lambda>(ref, g5).
      Inr (\<lparr>session_id = sid,
            s_user_id = user_id usr,
            start_time = session_start,
            end_time = session_start + session_duration,
            duration_seconds = session_duration,
            ip_address = ip,
            device_profile = (dev, os, browser),
            viewed_products = viewed,
            page_views = pvs,
            cart_contents = filter (\<lambda>(k, v). quantity v > 0) cart,
            conversion_status =
              (if converted then ''converted''
               else if cart \<noteq> [] then ''abandoned'' else ''browsed''),
            referrer = ref\<rparr>,
           g5))))))"

definition generate_session ::
  "config \<Rightarrow> user list \<Rightarrow> category list \<Rightarrow> inventory \<Rightarrow> store \<Rightarrow> rng \<Rightarrow> error + (session_result \<times> rng)" where
  "generate_session cfg users categories_list ivm h g =
     bindE (choice users g) (\<lambda>(usr, g1).
     (case uuid4 g1 of (sid, g2) \<Rightarrow>
     (case date_time_between (TIMESPAN_DAYS cfg) g2 of (session_start, g3) \<Rightarrow>
     (case randint 30 3600 g3 of (session_duration, g4) \<Rightarrow>
     (case randint 4 12 g4 of (n_views, g5) \<Rightarrow>
     (case draw_offsets (nat n_views) (max 2 (session_duration - 1)) g5 of (offsets, g6) \<Rightarrow>
     (let time_slots = time_slots_of session_duration offsets in
      bindE (page_view_loop ivm h categories_list session_start time_slots
               [0..<length time_slots - 1] ([], {}, [], g6)) (\<lambda>(pvs, viewed, cart, g7).
      (case conversion_logic cart pvs g7 of (converted, g8) \<Rightarrow>
      bindE (session_record sid usr session_start session_duration viewed pvs cart converted g8)
        (\<lambda>(s, g9).
      Inr (\<lparr>sr_session = s, sr_user = usr, sr_cart = cart, sr_converted = converted\<rparr>, g9)))))))))))"

subsection \<open>Transactions (lines 346 to 423)\<close>

text \<open>
  The reservation loop of a linked transaction (lines 350 to 362): the cart is walked in
  insertion order and the first failed reservation leaves the loop with \<open>valid = False\<close>.
\<close>

fun reserve_cart ::
  "inventory \<Rightarrow> cart \<Rightarrow> store \<Rightarrow> transaction_item list \<Rightarrow> bool \<times> transaction_item list \<times> store" where
  "reserve_cart ivm [] h its = (True, its, h)"
| "reserve_cart ivm ((pid, details) # rest) h its =
     (let qty = quantity details in
      if qty > 0 then
        (case update_stock ivm h pid qty of (ok, h') \<Rightarrow>
           if ok then
             reserve_cart ivm rest h'
               (its @ [\<lparr>ti_product_id = pid, ti_quantity = qty, unit_price = price details,
                        ti_subtotal = round2 (fmul (float_of_int qty) (price details))\<rparr>])
           else (False, its, h'))
      else reserve_cart ivm rest h its)"

text \<open>
  The reservation loop of a standalone transaction (lines 392 to 401), over the sampled
  product objects: a failed reservation only leaves that product out.
\<close>

fun reserve_products ::
  "inventory \<Rightarrow> nat list \<Rightarrow> store \<Rightarrow> transaction_item list \<Rightarrow> rng \<Rightarrow> transaction_item list \<times> store \<times> rng" where
  "reserve_products ivm [] h its g = (its, h, g)"
| "reserve_products ivm (p # ps) h its g =
     (if is_active (h ! p) then
        (case randint 1 3 g of (qty, g') \<Rightarrow>
           (case update_stock ivm h (product_id (h ! p)) qty of (ok, h') \<Rightarrow>
              if ok then
                reserve_products ivm ps h'
                  (its @ [\<lparr>ti_product_id = product_id (h ! p), ti_quantity = qty,
                           unit_price = base_price (h ! p),
                           ti_subtotal = round2 (fmul (float_of_int qty) (base_price (h ! p)))\<rparr>]) g'
              else reserve_products ivm ps h' its g'))
      else reserve_products ivm ps h its g)"

text \<open>
  The pricing of both kinds of transaction (lines 365 to 370 and 404 to 409, the same
  code): the float sum of the items' subtotals, the discount and the total, both computed
  from the sum as it is, before the rounding under which it is stored.  The rates are the
  floats written \<^verbatim>\<open>0.05\<close>, \<^verbatim>\<open>0.1\<close>, \<^verbatim>\<open>0.15\<close> and \<^verbatim>\<open>0.2\<close>.
\<close>

definition discount_choices :: "rat list" where
  "discount_choices = [float64 (5 / 100), float64 (1 / 10), float64 (15 / 100), float64 (2 / 10)]"

definition price_items :: "transaction_item list \<Rightarrow> rng \<Rightarrow> error + ((rat \<times> rat \<times> rat) \<times> rng)" where
  "price_items its g =
     (let sub = float_sum (map ti_subtotal its) in
      (case random_unit g of (u, g1) \<Rightarrow>
      bindE (if u < 2 / 10
             then bindE (choice discount_choices g1) (\<lambda>(d, g2).
                    Inr (round2 (fmul sub d), g2))
             else Inr (0, g1)) (\<lambda>(disc, g2).
      Inr ((sub, disc, round2 (fsub sub disc)), g2))))"

subsection \<open>The generation loop (lines 264 to 431)\<close>

record gen_state =
  products :: store
  sessions :: "session list"
  transactions :: "transaction list"
  session_counter :: nat
  transaction_counter :: nat
  random_state :: rng

text \<open>The linked transaction of a converted session (lines 346 to 384).\<close>

definition linked_transaction :: "inventory \<Rightarrow> session_result \<Rightarrow> gen_state \<Rightarrow> error + gen_state" where
  "linked_transaction ivm sr st =
     (case reserve_cart ivm (sr_cart sr) (products st) [] of (valid, transaction_items, h') \<Rightarrow>
        if valid \<and> transaction_items \<noteq> [] then
          bindE (price_items transaction_items (random_state st)) (\<lambda>((sub, disc, tot), g1).
          (case uuid4 g1 of (tid, g2) \<Rightarrow>
          bindE (choice [''credit_card'', ''paypal'', ''apple_pay'', ''bank_transfer''] g2) (\<lambda>(pm, g3).
          Inr (st\<lparr>products := h',
                  transactions := transactions st @
                    [\<lparr>transaction_id = tid,
                      t_session_id = Some (session_id (sr_session sr)),
                      t_user_id = user_id (sr_user sr),
                      t_timestamp = start_time (sr_session sr) + duration_seconds (sr_session sr),
                      items = transaction_items,
                      subtotal = round2 sub,
                      discount = disc,
                      total = tot,
                      payment_method = pm,
                      status = ''completed''\<rparr>],
                  transaction_counter := transaction_counter st + 1,
                  random_state := g3\<rparr>))))
        else Inr (st\<lparr>products := h'\<rparr>))"

text \<open>The session part of an iteration (lines 270 to 384).\<close>

definition session_block ::
  "config \<Rightarrow> user list \<Rightarrow> category list \<Rightarrow> inventory \<Rightarrow> gen_state \<Rightarrow> error + gen_state" where
  "session_block cfg users categories_list ivm st =
     bindE (generate_session cfg users categories_list ivm (products st) (random_state st)) (\<lambda>(sr, g).
       (let st1 = st\<lparr>sessions := sessions st @ [sr_session sr],
                     session_counter := session_counter st + 1,
                     random_state := g\<rparr>
        in if sr_converted sr \<and> transaction_counter st1 < NUM_TRANSACTIONS cfg
           then linked_transaction ivm sr st1
           else Inr st1))"

text \<open>
  The standalone transaction of an iteration (lines 387 to 423); \<^verbatim>\<open>random.random()\<close> is
  drawn only when the transaction target is not met.
\<close>

definition standalone_block ::
  "config \<Rightarrow> user list \<Rightarrow> inventory \<Rightarrow> gen_state \<Rightarrow> error + gen_state" where
  "standalone_block cfg users ivm st =
     (if transaction_counter st < NUM_TRANSACTIONS cfg then
        (case random_unit (random_state st) of (u, g1) \<Rightarrow>
           if u < 2 / 10 then
             bindE (choice users g1) (\<lambda>(usr, g2).
             (case sample [0..<length (products st)] (min 3 (length (products st))) g2 of
                (products_in_txn, g3) \<Rightarrow>
             (case reserve_products ivm products_in_txn (products st) [] g3 of
                (transaction_items, h', g4) \<Rightarrow>
             if transaction_items \<noteq> [] then
               bindE (price_items transaction_items g4) (\<lambda>((sub, disc, tot), g5).
               (case uuid4 g5 of (tid, g6) \<Rightarrow>
               (case date_time_between (TIMESPAN_DAYS cfg) g6 of (ts, g7) \<Rightarrow>
               bindE (choice [''credit_card'', ''paypal'', ''bank_transfer'', ''gift_card''] g7) (\<lambda>(pm, g8).
               bindE (choice [''completed'', ''processing'', ''shipped'', ''delivered''] g8) (\<lambda>(stat, g9).
               Inr (st\<lparr>products := h',
                       transactions := transactions st @
                         [\<lparr>transaction_id = tid,
                           t_session_id = None,
                           t_user_id = user_id usr,
                           t_timestamp = ts,
                           items = transaction_items,
                           subtotal = round2 sub,
                           discount = disc,
                           total = tot,
                           payment_method = pm,
                           status = stat\<rparr>],
                       transaction_counter := transaction_counter st + 1,
                       random_state := g9\<rparr>))))))
             else Inr (st\<lparr>products := h', random_state := g4\<rparr>))))
           else Inr (st\<lparr>random_state := g1\<rparr>))
      else Inr st)"

text \<open>The body of the while loop.\<close>

definition loop_body ::
  "config \<Rightarrow> user list \<Rightarrow> category list \<Rightarrow> inventory \<Rightarrow> gen_state \<Rightarrow> error + gen_state" where
  "loop_body cfg users categories_list ivm st =
     bindE (if session_counter st < NUM_SESSIONS cfg
            then session_block cfg users categories_list ivm st
            else Inr st)
       (standalone_block cfg users ivm)"

text \<open>
  The while loop; \<open>iteration\<close> is the loop's own counter.  An exception of the body ends
  the run.
\<close>

function generation_loop ::
  "config \<Rightarrow> user list \<Rightarrow> category list \<Rightarrow> inventory \<Rightarrow> nat \<Rightarrow> gen_state \<Rightarrow> error + gen_state" where
  "generation_loop cfg users categories_list ivm iteration st =
     (if (session_counter st < NUM_SESSIONS cfg \<or> transaction_counter st < NUM_TRANSACTIONS cfg)
         \<and> iteration < MAX_ITERATIONS cfg
      then (case loop_body cfg users categories_list ivm st of
              Inl e \<Rightarrow> Inl e
            | Inr st' \<Rightarrow> generation_loop cfg users categories_list ivm (iteration + 1) st')
      else Inr st)"
  by pat_completeness auto
termination
  by (relation "measure (\<lambda>(cfg, users, cs, ivm, iteration, st). MAX_ITERATIONS cfg - iteration)") auto

declare generation_loop.simps [simp del]

text \<open>
  The script from line 255 on: the manager is built over the catalog's products and the
  loop starts with empty outputs.
\<close>

definition initial_state :: "store \<Rightarrow> rng \<Rightarrow> gen_state" where
  "initial_state catalog g =
     \<lparr>products = catalog, sessions = [], transactions = [],
      session_counter = 0, transaction_counter = 0, random_state = g\<rparr>"

definition generate ::
  "config \<Rightarrow> user list \<Rightarrow> category list \<Rightarrow> store \<Rightarrow> rng \<Rightarrow> error + gen_state" where
  "generate cfg users categories_list catalog g =
     generation_loop cfg users categories_list (InventoryManager_init catalog) 0
       (initial_state catalog g)"

section \<open>Specification\<close>

subsection \<open>The ledger\<close>

text \<open>
  The manager's dictionary is sound for a store: a product id leads to an object of the
  store that carries this id.
\<close>

definition ledger_ok :: "inventory \<Rightarrow> store \<Rightarrow> bool" where
  "ledger_ok ivm h \<longleftrightarrow> (\<forall>pid i. ivm pid = Some i \<longrightarrow> i < length h \<and> product_id (h ! i) = pid)"

text \<open>
  The dictionary comprehension of \<^verbatim>\<open>__init__\<close>, from position \<open>n\<close> on and over a dictionary
  \<open>m0\<close>.
\<close>

definition ledger_fold :: "nat \<Rightarrow> store \<Rightarrow> inventory \<Rightarrow> inventory" where
  "ledger_fold n ps m0 = fold (\<lambda>(i, p) m. m(product_id p \<mapsto> i)) (enumerate n ps) m0"

text \<open>
  Every product of the store is in the dictionary.
\<close>

definition ledger_complete :: "inventory \<Rightarrow> store \<Rightarrow> bool" where
  "ledger_complete ivm h \<longleftrightarrow> (\<forall>p < length h. ivm (product_id (h ! p)) \<noteq> None)"

text \<open>
  No product of the store has a negative stock.
\<close>

definition stock_nonneg :: "store \<Rightarrow> bool" where
  "stock_nonneg h \<longleftrightarrow> list_all (\<lambda>p. 0 \<le> current_stock p) h"

text \<open>The two operations of the manager, and the stores a sequence of calls passes through.\<close>

datatype ledger_call = Reserve string int | Peek string

fun ledger_trace :: "inventory \<Rightarrow> store \<Rightarrow> ledger_call list \<Rightarrow> store list" where
  "ledger_trace ivm h [] = []"
| "ledger_trace ivm h (Reserve pid qty # cs) =
     (let h' = snd (update_stock ivm h pid qty) in h' # ledger_trace ivm h' cs)"
| "ledger_trace ivm h (Peek pid # cs) = h # ledger_trace ivm h cs"

subsection \<open>Page types and carts\<close>

text \<open>
  The seven states of the browsing state machine.
\<close>

definition known_pages :: "string set" where
  "known_pages = {''home'', ''search'', ''category_listing'', ''product_detail'', ''cart'',
                  ''checkout'', ''confirmation''}"

text \<open>
  The quantity a cart holds of a product, 0 without an entry.
\<close>

definition cart_qty :: "cart \<Rightarrow> string \<Rightarrow> int" where
  "cart_qty cart pid = (case map_of cart pid of None \<Rightarrow> 0 | Some e \<Rightarrow> quantity e)"

text \<open>
  Every positive quantity of the cart is covered by the ledger's stock of its product,
  and no product has two entries.
\<close>

definition cart_ok :: "inventory \<Rightarrow> store \<Rightarrow> cart \<Rightarrow> bool" where
  "cart_ok ivm h cart \<longleftrightarrow>
     distinct (map fst cart)
     \<and> (\<forall>pid e. map_of cart pid = Some e \<longrightarrow> 0 < quantity e \<longrightarrow>
            (\<exists>lp. get_product ivm h pid = Some lp \<and> quantity e \<le> current_stock lp))"

subsection \<open>Sessions\<close>

text \<open>
  What holds of every emitted session: strictly increasing timestamps, positive view
  durations that add up to the duration, 2 to 13 page views, a duration of 30 to 3600
  seconds, and a checkout or confirmation view in a converted session.
\<close>

definition session_ok :: "session \<Rightarrow> bool" where
  "session_ok s \<longleftrightarrow>
     sorted_wrt (<) (map timestamp (page_views s))
     \<and> (\<forall>pv \<in> set (page_views s). 0 < view_duration pv)
     \<and> sum_list (map view_duration (page_views s)) = duration_seconds s
     \<and> 2 \<le> length (page_views s) \<and> length (page_views s) \<le> 13
     \<and> 30 \<le> duration_seconds s \<and> duration_seconds s \<le> 3600
     \<and> (conversion_status s = ''converted'' \<longrightarrow>
          (\<exists>p \<in> set (page_views s). page_type p \<in> {''checkout'', ''confirmation''}))"

subsection \<open>Transactions and stock\<close>

text \<open>
  An item's subtotal is the float product of its quantity and its unit price, rounded to
  two places.
\<close>

definition item_ok :: "transaction_item \<Rightarrow> bool" where
  "item_ok it \<longleftrightarrow>
     ti_subtotal it = round2 (fmul (float_of_int (ti_quantity it)) (unit_price it))"

text \<open>
  The quantity of a product over a list of items, and over the items of a list of
  transactions.
\<close>

definition items_qty :: "transaction_item list \<Rightarrow> string \<Rightarrow> int" where
  "items_qty its pid = sum_list (map ti_quantity (filter (\<lambda>it. ti_product_id it = pid) its))"

definition sold :: "transaction list \<Rightarrow> string \<Rightarrow> int" where
  "sold ts pid = sum_list (map (\<lambda>t. items_qty (items t) pid) ts)"

text \<open>What the script stores in a transaction record built from the reserved items.\<close>

definition priced_from :: "transaction_item list \<Rightarrow> transaction \<Rightarrow> bool" where
  "priced_from its t \<longleftrightarrow>
     items t = its
     \<and> subtotal t = round2 (float_sum (map ti_subtotal its))
     \<and> (discount t = 0
          \<or> (\<exists>d \<in> set discount_choices. discount t = round2 (fmul (float_sum (map ti_subtotal its)) d)))
     \<and> total t = round2 (fsub (float_sum (map ti_subtotal its)) (discount t))"



text \<open>
  \<open>reserved ivm h new h'\<close>: the store \<open>h'\<close> comes from \<open>h\<close> by the reservations that the
  items \<open>new\<close> record, and by nothing else.
\<close>

definition reserved :: "inventory \<Rightarrow> store \<Rightarrow> transaction_item list \<Rightarrow> store \<Rightarrow> bool" where
  "reserved ivm h new h' \<longleftrightarrow>
     length h' = length h
     \<and> (\<forall>j. product_id (h' ! j) = product_id (h ! j))
     \<and> (stock_nonneg h \<longrightarrow> stock_nonneg h')
     \<and> (\<forall>it \<in> set new. item_ok it)
     \<and> (ledger_ok ivm h \<longrightarrow>
          (\<forall>pid j. ivm pid = Some j \<longrightarrow>
             current_stock (h ! j) - current_stock (h' ! j) = items_qty new pid))"

text \<open>
  One attempt at a transaction, seen from outside: the store moves by the reservations of
  the items \<open>new\<close>; the attempt emits nothing and leaves the counter, or emits one
  transaction of exactly these items, which are not empty, and counts it.
\<close>

definition attempt :: "inventory \<Rightarrow> gen_state \<Rightarrow> gen_state \<Rightarrow> transaction_item list \<Rightarrow> bool \<Rightarrow> bool" where
  "attempt ivm st st' new emitted \<longleftrightarrow>
     reserved ivm (products st) new (products st')
     \<and> (if emitted
         then new \<noteq> [] \<and> transaction_counter st' = transaction_counter st + 1
            \<and> (\<exists>t. transactions st' = transactions st @ [t] \<and> priced_from new t)
         else transactions st' = transactions st
            \<and> transaction_counter st' = transaction_counter st)"

text \<open>What an attempt shows in the outputs: nothing, or one more transaction with items.\<close>

definition emits_at_most_one :: "gen_state \<Rightarrow> gen_state \<Rightarrow> bool" where
  "emits_at_most_one st st' \<longleftrightarrow>
     (transactions st' = transactions st \<and> transaction_counter st' = transaction_counter st)
     \<or> (\<exists>t. transactions st' = transactions st @ [t] \<and> items t \<noteq> []
            \<and> transaction_counter st' = transaction_counter st + 1)"

text \<open>
  What holds of every emitted transaction, and of the counter.
\<close>

definition transaction_ok :: "transaction \<Rightarrow> bool" where
  "transaction_ok t \<longleftrightarrow>
     items t \<noteq> [] \<and> (\<forall>it \<in> set (items t). item_ok it) \<and> priced_from (items t) t"

definition emitted_ok :: "gen_state \<Rightarrow> bool" where
  "emitted_ok st \<longleftrightarrow>
     transaction_counter st = length (transactions st)
     \<and> (\<forall>t \<in> set (transactions st). transaction_ok t)"

text \<open>
  Stock conservation for the ledger's products, from the initial store \<open>h0\<close>.
\<close>

definition conserved :: "inventory \<Rightarrow> store \<Rightarrow> gen_state \<Rightarrow> bool" where
  "conserved ivm h0 st \<longleftrightarrow>
     ledger_ok ivm (products st)
     \<and> (\<forall>pid j. ivm pid = Some j \<longrightarrow>
           current_stock (h0 ! j) - current_stock (products st ! j) = sold (transactions st) pid)"

subsection \<open>The loop\<close>

text \<open>
  The condition of the while loop.
\<close>

definition loop_condition :: "config \<Rightarrow> nat \<Rightarrow> gen_state \<Rightarrow> bool" where
  "loop_condition cfg it st \<longleftrightarrow>
     (session_counter st < NUM_SESSIONS cfg \<or> transaction_counter st < NUM_TRANSACTIONS cfg)
     \<and> it < MAX_ITERATIONS cfg"

text \<open>
  The store of a state has a product, and the dictionary is sound and complete for it.
\<close>

definition store_ready :: "inventory \<Rightarrow> gen_state \<Rightarrow> bool" where
  "store_ready ivm st \<longleftrightarrow>
     products st \<noteq> [] \<and> ledger_ok ivm (products st) \<and> ledger_complete ivm (products st)"

subsection \<open>Example inputs\<close>

text \<open>
  Two products that the ledger holds, and a page view whose page type is not one of the
  seven states.
\<close>

definition example_catalog :: store where
  "example_catalog =
     [\<lparr>product_id = ''prod_00000'', category_id = ''cat_000'', base_price = float64 (999 / 100),
       current_stock = 10, is_active = True\<rparr>,
      \<lparr>product_id = ''prod_00001'', category_id = ''cat_000'', base_price = 5,
       current_stock = 2, is_active = True\<rparr>]"

definition example_view :: page_view where
  "example_view = \<lparr>timestamp = 0, page_type = ''wishlist'', pv_product_id = None,
                    pv_category_id = None, view_duration = 1\<rparr>"

text \<open>
  A catalog of two products, one user and one category, the targets of one session and
  one transaction, and draws under which the session views a product, adds three units
  of it to the cart, reaches the checkout and converts.  The draws, in the order of the
  calls: the user (0); the session id (7); the start time (0); the duration (0, for 30
  seconds); the number of offsets (0, for 4); the offsets (0, 1, 2, 2 for 1, 2, 3, 3), so
  the time slots are 0, 1, 2, 3, 30; the first page type (0, \<open>home\<close>); the second page
  type (\<open>2\<^sup>5\<^sup>3 - 1\<close>, \<open>product_detail\<close>), its product (0), the add-to-cart roll (0, below 0.3)
  and the quantity (2, for 3); the third page type (\<open>2\<^sup>5\<^sup>2\<close>, \<open>cart\<close>); the fourth (0,
  \<open>checkout\<close>); the conversion roll (0, below 0.7); the address, device, system, browser
  and referrer (0 each); the discount roll (\<open>2\<^sup>5\<^sup>2\<close>, not below 0.2); the transaction id and
  the payment method (0 each).
\<close>

definition example_users :: "user list" where
  "example_users = [\<lparr>user_id = ''user_000000''\<rparr>]"

definition example_categories :: "category list" where
  "example_categories = [\<lparr>cat_category_id = ''cat_000''\<rparr>]"

definition example_config :: config where
  "example_config = \<lparr>NUM_SESSIONS = 1, NUM_TRANSACTIONS = 1, TIMESPAN_DAYS = 90\<rparr>"

definition example_draws :: rng where
  "example_draws =
     [0, 7, 0, 0, 0, 0, 1, 2, 2, 0, 2 ^ 53 - 1, 0, 0, 2, 2 ^ 52, 0, 0, 0, 0, 0, 0, 0, 2 ^ 52, 0, 0]
       @- sconst 0"

text \<open>
  The session, the transaction and the final state of this run.
\<close>

definition example_session :: session where
  "example_session =
     \<lparr>session_id = 7, s_user_id = ''user_000000'', start_time = 0, end_time = 30,
      duration_seconds = 30, ip_address = 0,
      device_profile = (''mobile'', ''iOS'', ''Chrome''),
      viewed_products = {''prod_00000''},
      page_views =
        [\<lparr>timestamp = 0, page_type = ''home'', pv_product_id = None,
          pv_category_id = None, view_duration = 1\<rparr>,
         \<lparr>timestamp = 1, page_type = ''product_detail'', pv_product_id = Some ''prod_00000'',
          pv_category_id = Some ''cat_000'', view_duration = 1\<rparr>,
         \<lparr>timestamp = 2, page_type = ''cart'', pv_product_id = None,
          pv_category_id = None, view_duration = 1\<rparr>,
         \<lparr>timestamp = 3, page_type = ''checkout'', pv_product_id = None,
          pv_category_id = None, view_duration = 27\<rparr>],
      cart_contents = [(''prod_00000'', \<lparr>quantity = 3, price = float64 (999 / 100)\<rparr>)],
      conversion_status = ''converted'', referrer = ''direct''\<rparr>"

definition example_transaction :: transaction where
  "example_transaction =
     \<lparr>transaction_id = 0, t_session_id = Some 7, t_user_id = ''user_000000'',
      t_timestamp = 30,
      items = [\<lparr>ti_product_id = ''prod_00000'', ti_quantity = 3, unit_price = float64 (999 / 100),
                ti_subtotal = float64 (2997 / 100)\<rparr>],
      subtotal = float64 (2997 / 100), discount = 0, total = float64 (2997 / 100),
      payment_method = ''credit_card'', status = ''completed''\<rparr>"

definition example_final :: gen_state where
  "example_final =
     \<lparr>products = example_catalog[0 := (example_catalog ! 0)\<lparr>current_stock := 7\<rparr>],
      sessions = [example_session], transactions = [example_transaction],
      session_counter = 1, transaction_counter = 1, random_state = sconst 0\<rparr>"

text \<open>
  A catalog of one product with ten units, the targets of two sessions and one
  transaction, and draws under which the first session buys all ten units and the second
  views the product, now out of stock, tries to add it to the cart, and reaches the
  checkout.  The first list of draws is the first iteration: the user, the session id
  (1), the start time, the duration (30 seconds), the number of offsets (2, for 6), the
  offsets 1 to 6, the page type \<open>home\<close>; four \<open>product_detail\<close> pages, each with its page
  type, product, add-to-cart roll and quantity (3, 3, 3 and 1); the page types \<open>cart\<close>
  and \<open>checkout\<close>; the conversion roll; the five draws of the record; the discount roll,
  the transaction id and the payment method.  The second list is the second iteration:
  the user, the session id (2), the start time, the duration, the number of offsets (4),
  the offsets 1, 2, 3, 3, the page type \<open>home\<close>; the page type \<open>product_detail\<close>, the ten
  attempts at a product in stock, the fallback product and the add-to-cart roll (no
  quantity is drawn, nothing being left); the page types \<open>cart\<close> and \<open>checkout\<close>; the
  conversion roll; the five draws of the record.
\<close>

definition sold_out_catalog :: store where
  "sold_out_catalog =
     [\<lparr>product_id = ''prod_00000'', category_id = ''cat_000'', base_price = float64 (999 / 100),
       current_stock = 10, is_active = True\<rparr>]"

definition sold_out_config :: config where
  "sold_out_config = \<lparr>NUM_SESSIONS = 2, NUM_TRANSACTIONS = 1, TIMESPAN_DAYS = 90\<rparr>"

definition sold_out_draws :: rng where
  "sold_out_draws =
     ([0, 1, 0, 0, 2, 0, 1, 2, 3, 4, 5, 0,
       2 ^ 53 - 1, 0, 0, 2,  0, 0, 0, 2,  0, 0, 0, 2,  0, 0, 0, 0,
       2 ^ 52, 0, 0, 0, 0, 0, 0, 0, 2 ^ 52, 0, 0]
      @ [0, 2, 0, 0, 0, 0, 1, 2, 2, 0,
         2 ^ 53 - 1, 0, 0, 0, 0, 0, 0, 0, 0, 0, 0, 0, 0,
         2 ^ 52, 0, 0, 0, 0, 0, 0, 0])
       @- sconst 0"

text \<open>
  A catalog of four products of which only the last is active, no session and the target
  of one transaction, and draws under which the first iteration samples the three
  inactive products, reserves nothing and emits nothing, and the second samples the
  active product, reserves one unit of it at 5.30 and draws the discount rate 0.15.  The
  draws of the first iteration: the roll of the standalone transaction (0, below 0.2),
  the user (0) and the three positions of the sample (0, 1, 1, for the products 0, 1
  and 2).  Those of the second: the roll, the user, the positions (3, 0, 0, for the
  products 3, 0 and 2), the quantity (0, for 1), the discount roll (0, below 0.2), the
  rate (2, for 0.15), the transaction id (9), the time, the payment method and the status
  (0 each).
\<close>

definition standalone_catalog :: store where
  "standalone_catalog =
     [\<lparr>product_id = ''prod_00000'', category_id = ''cat_000'', base_price = float64 (1999 / 100),
       current_stock = 10, is_active = False\<rparr>,
      \<lparr>product_id = ''prod_00001'', category_id = ''cat_000'', base_price = float64 (505 / 100),
       current_stock = 25, is_active = False\<rparr>,
      \<lparr>product_id = ''prod_00002'', category_id = ''cat_000'', base_price = 120,
       current_stock = 40, is_active = False\<rparr>,
      \<lparr>product_id = ''prod_00003'', category_id = ''cat_000'', base_price = float64 (53 / 10),
       current_stock = 10, is_active = True\<rparr>]"

definition standalone_config :: config where
  "standalone_config = \<lparr>NUM_SESSIONS = 0, NUM_TRANSACTIONS = 1, TIMESPAN_DAYS = 90\<rparr>"

definition standalone_second_draws :: rng where
  "standalone_second_draws = [0, 0, 3, 0, 0, 0, 0, 2, 9, 0, 0, 0] @- sconst 0"

definition standalone_draws :: rng where
  "standalone_draws = [0, 0, 0, 1, 1] @- standalone_second_draws"

text \<open>
  The state after the first iteration, the transaction of the second and the final state
  of this run.
\<close>

definition standalone_skipped :: gen_state where
  "standalone_skipped =
     \<lparr>products = standalone_catalog, sessions = [], transactions = [],
      session_counter = 0, transaction_counter = 0, random_state = standalone_second_draws\<rparr>"

definition standalone_transaction :: transaction where
  "standalone_transaction =
     \<lparr>transaction_id = 9, t_session_id = None, t_user_id = ''user_000000'',
      t_timestamp = 0,
      items = [\<lparr>ti_product_id = ''prod_00003'', ti_quantity = 1, unit_price = float64 (53 / 10),
                ti_subtotal = float64 (53 / 10)\<rparr>],
      subtotal = float64 (53 / 10), discount = float64 (79 / 100), total = float64 (451 / 100),
      payment_method = ''credit_card'', status = ''completed''\<rparr>"

definition standalone_final :: gen_state where
  "standalone_final =
     \<lparr>products = standalone_catalog[3 := (standalone_catalog ! 3)\<lparr>current_stock := 9\<rparr>],
      sessions = [], transactions = [standalone_transaction],
      session_counter = 0, transaction_counter = 1, random_state = sconst 0\<rparr>"

section \<open>Lemmas\<close>

subsection \<open>The error monad and the draws\<close>

lemma bindE_Inr [simp]: "bindE (Inr x) f = f x"
  by (simp add: bindE_def)

lemma bindE_Inl [simp]: "bindE (Inl e) f = Inl e"
  by (simp add: bindE_def)

lemma bindE_eq_Inr: "bindE m f = Inr y \<longleftrightarrow> (\<exists>x. m = Inr x \<and> f x = Inr y)"
  by (cases m) auto

lemma randint_range:
  assumes "a \<le> b" and "randint a b g = (x, g')"
  shows "a \<le> x \<and> x \<le> b"
proof -
  have "0 < nat (b - a + 1)" using assms(1) by simp
  then have "shd g mod nat (b - a + 1) < nat (b - a + 1)" by simp
  then have "int (shd g mod nat (b - a + 1)) \<le> b - a" using assms(1) by linarith
  then show ?thesis using assms(2) by (auto simp: randint_def)
qed

lemma choice_in_set: "choice xs g = Inr (x, g') \<Longrightarrow> x \<in> set xs"
  by (auto simp: choice_def randbelow_def split: if_splits)

lemma choice_nonempty: "xs \<noteq> [] \<Longrightarrow> \<exists>x g'. choice xs g = Inr (x, g')"
  by (simp add: choice_def randbelow_def)

lemma choices_in_set: "population \<noteq> [] \<Longrightarrow> fst (choices population ws g) \<in> set population"
proof -
  assume ne: "population \<noteq> []"
  have "min k (length population - 1) < length population" for k
    using ne by (cases population) auto
  then show ?thesis
    by (simp add: choices_def random_unit_def Let_def)
qed

subsection \<open>The dictionary of the manager\<close>

lemma ledger_fold_Nil: "ledger_fold n [] m0 = m0"
  by (simp add: ledger_fold_def)

lemma ledger_fold_Cons: "ledger_fold n (p # ps) m0 = ledger_fold (Suc n) ps (m0(product_id p \<mapsto> n))"
  by (simp add: ledger_fold_def)

lemma ledger_fold_Some:
  "ledger_fold n ps m0 pid = Some i \<Longrightarrow>
     m0 pid = Some i \<or> (n \<le> i \<and> i < n + length ps \<and> product_id (ps ! (i - n)) = pid)"
proof (induction ps arbitrary: n m0)
  case Nil
  then show ?case by (simp add: ledger_fold_Nil)
next
  case (Cons p ps)
  from Cons.prems have "ledger_fold (Suc n) ps (m0(product_id p \<mapsto> n)) pid = Some i"
    by (simp add: ledger_fold_Cons)
  from Cons.IH[OF this]
  show ?case
    by (auto split: if_splits simp: nth_Cons')
qed

lemma init_ledger_ok: "ledger_ok (InventoryManager_init ps) ps"
proof -
  have "InventoryManager_init ps = ledger_fold 0 ps Map.empty"
    by (simp add: InventoryManager_init_def ledger_fold_def)
  then show ?thesis
    unfolding ledger_ok_def using ledger_fold_Some[of 0 ps Map.empty] by fastforce
qed

lemma ledger_fold_other:
  "pid \<notin> product_id ` set ps \<Longrightarrow> ledger_fold n ps m0 pid = m0 pid"
  by (induction ps arbitrary: n m0) (auto simp: ledger_fold_Nil ledger_fold_Cons)

lemma ledger_fold_distinct:
  "distinct (map product_id ps) \<Longrightarrow> i < length ps \<Longrightarrow>
     ledger_fold n ps m0 (product_id (ps ! i)) = Some (n + i)"
proof (induction ps arbitrary: n m0 i)
  case Nil
  then show ?case by simp
next
  case (Cons p ps)
  show ?case
  proof (cases i)
    case 0
    have "product_id p \<notin> product_id ` set ps" using Cons.prems(1) by simp
    then show ?thesis using 0 by (simp add: ledger_fold_Cons ledger_fold_other)
  next
    case (Suc j)
    with Cons.prems have "j < length ps" "distinct (map product_id ps)" by auto
    then have "ledger_fold (Suc n) ps (m0(product_id p \<mapsto> n)) (product_id (ps ! j)) = Some (Suc n + j)"
      by (rule Cons.IH[rotated])
    moreover have "(p # ps) ! i = ps ! j" using Suc by simp
    ultimately show ?thesis using Suc by (simp only: ledger_fold_Cons) simp
  qed
qed

lemma init_distinct:
  assumes "distinct (map product_id ps)" and "i < length ps"
  shows "InventoryManager_init ps (product_id (ps ! i)) = Some i"
  using ledger_fold_distinct[OF assms, of 0 Map.empty]
  by (simp add: InventoryManager_init_def ledger_fold_def)

subsection \<open>Reservations on the store\<close>

lemma update_stock_length: "length (snd (update_stock ivm h pid qty)) = length h"
  by (simp add: update_stock_def split: option.splits)

lemma update_stock_product_id:
  "product_id (snd (update_stock ivm h pid qty) ! j) = product_id (h ! j)"
proof -
  have "product_id (h[i := (h ! i)\<lparr>current_stock := c\<rparr>] ! j) = product_id (h ! j)" for i c
  proof (cases "i = j")
    case True
    then show ?thesis by (cases "i < length h") (simp_all add: list_update_beyond)
  next
    case False
    then show ?thesis by simp
  qed
  then show ?thesis by (simp add: update_stock_def split: option.splits)
qed

lemma update_stock_ledger_ok:
  "ledger_ok ivm h \<Longrightarrow> ledger_ok ivm (snd (update_stock ivm h pid qty))"
  by (simp add: ledger_ok_def update_stock_length update_stock_product_id)

lemma update_stock_nonneg:
  "stock_nonneg h \<Longrightarrow> stock_nonneg (snd (update_stock ivm h pid qty))"
proof -
  assume nn: "stock_nonneg h"
  show ?thesis
  proof (cases "ivm pid")
    case None
    then show ?thesis using nn by (simp add: update_stock_def)
  next
    case (Some i)
    show ?thesis
    proof (cases "qty \<le> current_stock (h ! i)")
      case True
      have "\<forall>p \<in> set (h[i := (h ! i)\<lparr>current_stock := current_stock (h ! i) - qty\<rparr>]). 0 \<le> current_stock p"
      proof
        fix p assume "p \<in> set (h[i := (h ! i)\<lparr>current_stock := current_stock (h ! i) - qty\<rparr>])"
        then have "p \<in> insert ((h ! i)\<lparr>current_stock := current_stock (h ! i) - qty\<rparr>) (set h)"
          using set_update_subset_insert by fastforce
        then show "0 \<le> current_stock p"
          using nn True by (auto simp: stock_nonneg_def list_all_iff)
      qed
      then show ?thesis using Some True
        by (simp add: update_stock_def stock_nonneg_def list_all_iff)
    next
      case False
      then show ?thesis using nn Some by (simp add: update_stock_def)
    qed
  qed
qed

lemma ledger_trace_nonneg:
  "stock_nonneg h \<Longrightarrow> \<forall>h' \<in> set (ledger_trace ivm h cs). stock_nonneg h'"
proof (induction cs arbitrary: h)
  case Nil
  then show ?case by simp
next
  case (Cons c cs)
  show ?case
  proof (cases c)
    case (Reserve pid qty)
    then show ?thesis using Cons update_stock_nonneg[of h ivm pid qty]
      by (simp add: Let_def)
  next
    case (Peek pid)
    then show ?thesis using Cons by simp
  qed
qed

lemma reserve_contract_aux:
  assumes ok: "ledger_ok ivm h" and upd: "update_stock ivm h pid qty = (r, h')"
  shows "(r \<longleftrightarrow> (\<exists>p. get_product ivm h pid = Some p \<and> qty \<le> current_stock p))
       \<and> (r \<longrightarrow> (\<exists>p. get_product ivm h pid = Some p
                 \<and> get_product ivm h' pid = Some (p\<lparr>current_stock := current_stock p - qty\<rparr>))
               \<and> (\<forall>pid'. pid' \<noteq> pid \<longrightarrow> get_product ivm h' pid' = get_product ivm h pid')
               \<and> length h' = length h
               \<and> (\<forall>j. ivm pid \<noteq> Some j \<longrightarrow> h' ! j = h ! j))
       \<and> (\<not> r \<longrightarrow> h' = h)"
proof (cases "ivm pid")
  case None
  then show ?thesis using upd by (auto simp: update_stock_def get_product_def)
next
  case (Some i)
  then have i: "i < length h" "product_id (h ! i) = pid" using ok by (auto simp: ledger_ok_def)
  show ?thesis
  proof (cases "qty \<le> current_stock (h ! i)")
    case False
    then show ?thesis using upd Some by (auto simp: update_stock_def get_product_def)
  next
    case True
    then have r: "r" and h': "h' = h[i := (h ! i)\<lparr>current_stock := current_stock (h ! i) - qty\<rparr>]"
      using upd Some by (auto simp: update_stock_def)
    have other: "get_product ivm h' pid' = get_product ivm h pid'" if "pid' \<noteq> pid" for pid'
    proof (cases "ivm pid'")
      case None
      then show ?thesis by (simp add: get_product_def)
    next
      case (Some j)
      then have "product_id (h ! j) = pid'" using ok by (auto simp: ledger_ok_def)
      then have "j \<noteq> i" using that i by auto
      then show ?thesis using Some h' by (simp add: get_product_def)
    qed
    show ?thesis using r h' Some i True other
      by (auto simp: get_product_def)
  qed
qed

subsection \<open>The add-to-cart block\<close>

lemma add_to_cart_cases:
  fixes cart :: cart and g :: rng
  assumes lp: "get_product ivm h (product_id (h ! p)) = Some lp"
  defines "pid \<equiv> product_id (h ! p)"
  defines "stock_left \<equiv> current_stock lp - cart_qty cart pid"
  shows "\<exists>cart' g'. add_to_cart ivm h p cart g = Inr (cart', g')
           \<and> map_of cart' pid \<noteq> None
           \<and> (\<forall>e. map_of cart' pid = Some e \<longrightarrow>
                  price e = (case map_of cart pid of None \<Rightarrow> base_price (h ! p) | Some e0 \<Rightarrow> price e0))
           \<and> (if 0 < min 3 stock_left
               then 1 \<le> cart_qty cart' pid - cart_qty cart pid
                  \<and> cart_qty cart' pid - cart_qty cart pid \<le> min 3 stock_left
                  \<and> fst (randint 1 (min 3 stock_left) g) = cart_qty cart' pid - cart_qty cart pid
                  \<and> g' = snd (randint 1 (min 3 stock_left) g)
               else cart_qty cart' pid = cart_qty cart pid \<and> g' = g)
           \<and> (\<forall>pid'. pid' \<noteq> pid \<longrightarrow> map_of cart' pid' = map_of cart pid')
           \<and> map fst cart' = (if map_of cart pid = None then map fst cart @ [pid] else map fst cart)"
proof -
  define cart1 where "cart1 = (if map_of cart pid = None
       then AList.update pid \<lparr>quantity = 0, price = base_price (h ! p)\<rparr> cart else cart)"
  have "\<exists>e. map_of cart1 pid = Some e \<and> quantity e = cart_qty cart pid
    \<and> price e = (case map_of cart pid of None \<Rightarrow> base_price (h ! p) | Some e0 \<Rightarrow> price e0)"
    by (cases "map_of cart pid") (simp_all add: cart1_def cart_qty_def update_conv')
  then obtain e where e: "map_of cart1 pid = Some e" and eq: "quantity e = cart_qty cart pid"
    and ep: "price e = (case map_of cart pid of None \<Rightarrow> base_price (h ! p) | Some e0 \<Rightarrow> price e0)"
    by blast
  have other1: "map_of cart1 pid' = map_of cart pid'" if "pid' \<noteq> pid" for pid'
    using that by (simp add: cart1_def update_conv')
  have keys1: "map fst cart1 = (if map_of cart pid = None then map fst cart @ [pid] else map fst cart)"
    by (auto simp: cart1_def update_keys map_of_eq_None_iff)
  show ?thesis
  proof (cases "0 < min 3 stock_left")
    case False
    then have "add_to_cart ivm h p cart g = Inr (cart1, g)"
      using lp e eq by (simp add: add_to_cart_def Let_def cart1_def[symmetric] pid_def[symmetric] stock_left_def)
    then show ?thesis using False e eq ep other1 keys1 by (simp add: cart_qty_def)
  next
    case True
    obtain n g' where r: "randint 1 (min 3 stock_left) g = (n, g')" by (cases "randint 1 (min 3 stock_left) g")
    have n: "1 \<le> n \<and> n \<le> min 3 stock_left" using randint_range[OF _ r] True by linarith
    have res: "add_to_cart ivm h p cart g = Inr (AList.update pid (e\<lparr>quantity := quantity e + n\<rparr>) cart1, g')"
      using lp e eq True r
      by (simp add: add_to_cart_def Let_def cart1_def[symmetric] pid_def[symmetric] stock_left_def)
    have "pid \<in> fst ` set cart1" using e map_of_eq_None_iff[of cart1 pid] by auto
    then have keys2: "map fst (AList.update pid (e\<lparr>quantity := quantity e + n\<rparr>) cart1) = map fst cart1"
      by (simp add: update_keys)
    show ?thesis using res True n eq ep other1 r keys1 keys2
      by (simp add: cart_qty_def update_conv')
  qed
qed

subsection \<open>The blocks of the loop body\<close>

lemma price_items_cases:
  assumes "price_items its g = Inr ((sub, disc, tot), g')"
  shows "sub = float_sum (map ti_subtotal its)
       \<and> (disc = 0 \<or> (\<exists>d \<in> set discount_choices. disc = round2 (fmul sub d)))
       \<and> tot = round2 (fsub sub disc)"
  using assms
  by (auto simp: price_items_def Let_def bindE_eq_Inr
           dest!: choice_in_set split: if_splits prod.splits)

lemma linked_transaction_cases:
  assumes "linked_transaction ivm sr st = Inr st'"
  obtains valid its h' where
    "reserve_cart ivm (sr_cart sr) (products st) [] = (valid, its, h')"
    "products st' = h'" "sessions st' = sessions st" "session_counter st' = session_counter st"
    "(\<not> (valid \<and> its \<noteq> []) \<and> transactions st' = transactions st
        \<and> transaction_counter st' = transaction_counter st)
     \<or> (valid \<and> its \<noteq> [] \<and> transaction_counter st' = transaction_counter st + 1
        \<and> (\<exists>t. transactions st' = transactions st @ [t] \<and> priced_from its t))"
proof -
  obtain valid its h' where r: "reserve_cart ivm (sr_cart sr) (products st) [] = (valid, its, h')"
    by (cases "reserve_cart ivm (sr_cart sr) (products st) []") auto
  show ?thesis
  proof (cases "valid \<and> its \<noteq> []")
    case False
    then have "st' = st\<lparr>products := h'\<rparr>"
      using assms r by (auto simp: linked_transaction_def)
    then show ?thesis using that[OF r] False by simp
  next
    case True
    then obtain sub disc tot g1 where p: "price_items its (random_state st) = Inr ((sub, disc, tot), g1)"
      using assms r by (auto simp: linked_transaction_def bindE_eq_Inr)
    from price_items_cases[OF p] True assms r p
    have "products st' = h' \<and> sessions st' = sessions st \<and> session_counter st' = session_counter st
        \<and> transaction_counter st' = transaction_counter st + 1
        \<and> (\<exists>t. transactions st' = transactions st @ [t] \<and> priced_from its t)"
      by (auto simp: linked_transaction_def bindE_eq_Inr uuid4_def priced_from_def)
    then show ?thesis using that[OF r] True by blast
  qed
qed

lemma standalone_block_cases:
  assumes "standalone_block cfg users ivm st = Inr st'"
  shows "sessions st' = sessions st \<and> session_counter st' = session_counter st
     \<and> ((products st' = products st \<and> transactions st' = transactions st
           \<and> transaction_counter st' = transaction_counter st)
        \<or> (\<exists>ps its h' g g'.
              reserve_products ivm ps (products st) [] g = (its, h', g')
            \<and> products st' = h'
            \<and> ((its = [] \<and> transactions st' = transactions st
                   \<and> transaction_counter st' = transaction_counter st)
               \<or> (its \<noteq> [] \<and> transaction_counter st' = transaction_counter st + 1
                   \<and> (\<exists>t. transactions st' = transactions st @ [t] \<and> priced_from its t)))))"
proof (cases "transaction_counter st < NUM_TRANSACTIONS cfg")
  case False
  then show ?thesis using assms by (simp add: standalone_block_def)
next
  case tc: True
  obtain u g1 where u: "random_unit (random_state st) = (u, g1)"
    by (cases "random_unit (random_state st)")
  show ?thesis
  proof (cases "u < 2 / 10")
    case False
    then show ?thesis using assms tc u by (auto simp: standalone_block_def)
  next
    case True
    then obtain usr g2 where usr: "choice users g1 = Inr (usr, g2)"
      using assms tc u by (auto simp: standalone_block_def bindE_eq_Inr)
    obtain ps g3 where ps: "sample [0..<length (products st)] (min 3 (length (products st))) g2 = (ps, g3)"
      by (cases "sample [0..<length (products st)] (min 3 (length (products st))) g2")
    obtain its h' g4 where r: "reserve_products ivm ps (products st) [] g3 = (its, h', g4)"
      by (cases "reserve_products ivm ps (products st) [] g3") auto
    show ?thesis
    proof (cases "its = []")
      case True
      then have "st' = st\<lparr>products := h', random_state := g4\<rparr>"
        using assms tc u \<open>u < 2 / 10\<close> usr ps r by (simp add: standalone_block_def)
      then show ?thesis using r True by auto
    next
      case False
      then obtain sub disc tot g5 where p: "price_items its g4 = Inr ((sub, disc, tot), g5)"
        using assms tc u \<open>u < 2 / 10\<close> usr ps r by (auto simp: standalone_block_def bindE_eq_Inr)
      from price_items_cases[OF p] False assms tc u \<open>u < 2 / 10\<close> usr ps r p
      have "products st' = h' \<and> sessions st' = sessions st \<and> session_counter st' = session_counter st
          \<and> transaction_counter st' = transaction_counter st + 1
          \<and> (\<exists>t. transactions st' = transactions st @ [t] \<and> priced_from its t)"
        by (auto simp: standalone_block_def bindE_eq_Inr uuid4_def date_time_between_def priced_from_def)
      then show ?thesis using r False by blast
    qed
  qed
qed

lemma standalone_block_outcome:
  assumes "standalone_block cfg users ivm st = Inr st'"
    and "transaction_counter st < NUM_TRANSACTIONS cfg"
    and "fst (random_unit (random_state st)) < 2 / 10"
    and "choice users (snd (random_unit (random_state st))) = Inr (usr, g2)"
    and "sample [0..<length (products st)] (min 3 (length (products st))) g2 = (ps, g3)"
    and "its = fst (reserve_products ivm ps (products st) [] g3)"
  shows "(its = [] \<longrightarrow> transactions st' = transactions st
                     \<and> transaction_counter st' = transaction_counter st)
       \<and> (its \<noteq> [] \<longrightarrow> transaction_counter st' = transaction_counter st + 1
                     \<and> (\<exists>t. transactions st' = transactions st @ [t] \<and> priced_from its t))"
proof -
  obtain u g1 where u: "random_unit (random_state st) = (u, g1)"
    by (cases "random_unit (random_state st)")
  have lt: "u < 2 / 10" using assms(3) u by simp
  have usr: "choice users g1 = Inr (usr, g2)" using assms(4) u by simp
  obtain h' g4 where r: "reserve_products ivm ps (products st) [] g3 = (its, h', g4)"
    using assms(6) by (cases "reserve_products ivm ps (products st) [] g3") auto
  show ?thesis
  proof (cases "its = []")
    case True
    then have "st' = st\<lparr>products := h', random_state := g4\<rparr>"
      using assms(1,2,5) u lt usr r by (simp add: standalone_block_def)
    then show ?thesis using True by simp
  next
    case False
    then obtain sub disc tot g5 where p: "price_items its g4 = Inr ((sub, disc, tot), g5)"
      using assms(1,2,5) u lt usr r by (auto simp: standalone_block_def bindE_eq_Inr)
    from price_items_cases[OF p] False assms(1,2,5) u lt usr r p
    have "transaction_counter st' = transaction_counter st + 1
        \<and> (\<exists>t. transactions st' = transactions st @ [t] \<and> priced_from its t)"
      by (auto simp: standalone_block_def bindE_eq_Inr uuid4_def date_time_between_def priced_from_def)
    then show ?thesis using False by blast
  qed
qed

lemma session_block_cases:
  assumes "session_block cfg users cs ivm st = Inr st'"
  obtains sr g where
    "generate_session cfg users cs ivm (products st) (random_state st) = Inr (sr, g)"
    "sr_converted sr \<and> transaction_counter st < NUM_TRANSACTIONS cfg"
    "linked_transaction ivm sr (st\<lparr>sessions := sessions st @ [sr_session sr],
        session_counter := session_counter st + 1, random_state := g\<rparr>) = Inr st'"
  | sr g where
    "generate_session cfg users cs ivm (products st) (random_state st) = Inr (sr, g)"
    "st' = st\<lparr>sessions := sessions st @ [sr_session sr],
        session_counter := session_counter st + 1, random_state := g\<rparr>"
  using assms
  by (auto simp: session_block_def bindE_eq_Inr Let_def split: if_splits)

subsection \<open>The while loop\<close>

lemma generation_loop_stop:
  "\<not> loop_condition cfg it st \<Longrightarrow> generation_loop cfg users cs ivm it st = Inr st"
  by (subst generation_loop.simps) (auto simp: loop_condition_def)

lemma generation_loop_step:
  "loop_condition cfg it st \<Longrightarrow>
     generation_loop cfg users cs ivm it st =
       (case loop_body cfg users cs ivm st of
          Inl e \<Rightarrow> Inl e
        | Inr st' \<Rightarrow> generation_loop cfg users cs ivm (it + 1) st')"
  by (subst generation_loop.simps) (auto simp: loop_condition_def)

lemma generation_loop_invariant:
  assumes step: "\<And>s s'. I s \<Longrightarrow> loop_body cfg users cs ivm s = Inr s' \<Longrightarrow> I s'"
      and "I st" and "generation_loop cfg users cs ivm it st = Inr st'"
  shows "I st'"
  using assms
proof (induction cfg users cs ivm it st rule: generation_loop.induct)
  case (1 cfg users cs ivm it st)
  show ?case
  proof (cases "loop_condition cfg it st")
    case False
    then show ?thesis using "1.prems" by (simp add: generation_loop_stop)
  next
    case True
    then obtain s1 where b: "loop_body cfg users cs ivm st = Inr s1"
      and l: "generation_loop cfg users cs ivm (it + 1) s1 = Inr st'"
      using "1.prems"(3) by (simp add: generation_loop_step split: sum.splits)
    have c: "(session_counter st < NUM_SESSIONS cfg \<or> transaction_counter st < NUM_TRANSACTIONS cfg)
         \<and> it < MAX_ITERATIONS cfg" using True by (simp add: loop_condition_def)
    have "I s1" using "1.prems"(1)[OF "1.prems"(2) b] .
    show ?thesis
    proof (rule "1.IH"[OF c b])
      show "\<And>s s'. I s \<Longrightarrow> loop_body cfg users cs ivm s = Inr s' \<Longrightarrow> I s'"
        by (rule "1.prems"(1))
      show "I s1" by fact
      show "generation_loop cfg users cs ivm (it + 1) s1 = Inr st'" by (rule l)
    qed
  qed
qed

subsection \<open>The reservation loops\<close>

lemma items_qty_Nil [simp]: "items_qty [] pid = 0"
  by (simp add: items_qty_def)

lemma items_qty_append [simp]: "items_qty (a @ b) pid = items_qty a pid + items_qty b pid"
  by (simp add: items_qty_def)

lemma sold_Nil [simp]: "sold [] pid = 0"
  by (simp add: sold_def)

lemma sold_snoc [simp]: "sold (ts @ [t]) pid = sold ts pid + items_qty (items t) pid"
  by (simp add: sold_def)

lemma ledger_ok_cong:
  "ledger_ok ivm h \<Longrightarrow> length h' = length h \<Longrightarrow> \<forall>j. product_id (h' ! j) = product_id (h ! j)
     \<Longrightarrow> ledger_ok ivm h'"
  by (simp add: ledger_ok_def)

lemma reserved_ledger_ok: "reserved ivm h new h' \<Longrightarrow> ledger_ok ivm h \<Longrightarrow> ledger_ok ivm h'"
  by (auto simp: reserved_def intro: ledger_ok_cong)

lemma reserved_refl: "reserved ivm h [] h"
  by (simp add: reserved_def)

lemma reserved_trans:
  assumes a: "reserved ivm h a h1" and b: "reserved ivm h1 b h2"
  shows "reserved ivm h (a @ b) h2"
proof -
  have "current_stock (h ! j) - current_stock (h2 ! j) = items_qty (a @ b) pid"
    if ok: "ledger_ok ivm h" and j: "ivm pid = Some j" for pid j
  proof -
    have ok1: "ledger_ok ivm h1" using a ok by (rule reserved_ledger_ok)
    have "current_stock (h ! j) - current_stock (h1 ! j) = items_qty a pid"
      using a ok j by (simp add: reserved_def)
    moreover have "current_stock (h1 ! j) - current_stock (h2 ! j) = items_qty b pid"
      using b ok1 j by (simp add: reserved_def)
    ultimately show ?thesis by simp
  qed
  moreover have "length h2 = length h" "\<forall>j. product_id (h2 ! j) = product_id (h ! j)"
    "stock_nonneg h \<longrightarrow> stock_nonneg h2" "\<forall>it \<in> set (a @ b). item_ok it"
    using a b by (auto simp: reserved_def)
  ultimately show ?thesis unfolding reserved_def by blast
qed

lemma update_stock_stock:
  assumes ok: "ledger_ok ivm h" and u: "update_stock ivm h pid qty = (r, h1)" and j: "ivm pid' = Some j"
  shows "current_stock (h1 ! j) = current_stock (h ! j) - (if r \<and> pid' = pid then qty else 0)"
proof -
  from reserve_contract_aux[OF ok u]
  have iff: "r \<longleftrightarrow> (\<exists>p. get_product ivm h pid = Some p \<and> qty \<le> current_stock p)"
    and succ: "r \<longrightarrow> (\<exists>p. get_product ivm h pid = Some p
                 \<and> get_product ivm h1 pid = Some (p\<lparr>current_stock := current_stock p - qty\<rparr>))
               \<and> (\<forall>pid'. pid' \<noteq> pid \<longrightarrow> get_product ivm h1 pid' = get_product ivm h pid')"
    and fail: "\<not> r \<longrightarrow> h1 = h"
    by blast+
  show ?thesis
  proof (cases r)
    case False
    then show ?thesis using fail by simp
  next
    case True
    show ?thesis
    proof (cases "pid' = pid")
      case True
      with \<open>r\<close> succ j show ?thesis by (auto simp: get_product_def)
    next
      case False
      with \<open>r\<close> succ have "get_product ivm h1 pid' = get_product ivm h pid'" by blast
      with j False show ?thesis by (simp add: get_product_def)
    qed
  qed
qed

lemma update_stock_reserved:
  assumes u: "update_stock ivm h pid qty = (True, h1)"
  shows "reserved ivm h [\<lparr>ti_product_id = pid, ti_quantity = qty, unit_price = pr,
                          ti_subtotal = round2 (fmul (float_of_int qty) pr)\<rparr>] h1"
proof -
  have h1: "h1 = snd (update_stock ivm h pid qty)" using u by simp
  have "current_stock (h ! j) - current_stock (h1 ! j)
          = items_qty [\<lparr>ti_product_id = pid, ti_quantity = qty, unit_price = pr,
                          ti_subtotal = round2 (fmul (float_of_int qty) pr)\<rparr>] pid'"
    if "ledger_ok ivm h" "ivm pid' = Some j" for pid' j
    using update_stock_stock[OF that(1) u that(2)] by (simp add: items_qty_def)
  then show ?thesis
    unfolding reserved_def
    by (simp add: h1 update_stock_length update_stock_product_id update_stock_nonneg item_ok_def)
qed

lemma update_stock_failed: "update_stock ivm h pid qty = (False, h1) \<Longrightarrow> h1 = h"
  by (auto simp: update_stock_def split: option.splits if_splits)

lemma reserve_cart_reserved:
  "reserve_cart ivm cart h its = (valid, its', h') \<Longrightarrow>
     \<exists>new. its' = its @ new \<and> reserved ivm h new h'"
proof (induction ivm cart h its rule: reserve_cart.induct)
  case (1 ivm h its)
  then show ?case by (simp add: reserved_refl)
next
  case (2 ivm pid details rest h its)
  show ?case
  proof (cases "quantity details > 0")
    case False
    then show ?thesis using 2 by simp
  next
    case True
    obtain r h1 where u: "update_stock ivm h pid (quantity details) = (r, h1)"
      by (cases "update_stock ivm h pid (quantity details)")
    show ?thesis
    proof (cases r)
      case False
      then have "h1 = h" using u update_stock_failed[of ivm h pid "quantity details" h1] by simp
      then show ?thesis using "2.prems" True u False by (simp add: reserved_refl)
    next
      case r: True
      let ?it = "\<lparr>ti_product_id = pid, ti_quantity = quantity details, unit_price = price details,
                  ti_subtotal = round2 (fmul (float_of_int (quantity details)) (price details))\<rparr>"
      have rec: "reserve_cart ivm rest h1 (its @ [?it]) = (valid, its', h')"
        using "2.prems" True u r by (simp add: Let_def)
      have "\<exists>new. its' = (its @ [?it]) @ new \<and> reserved ivm h1 new h'"
        using "2.IH"(1) True u r rec by auto
      then obtain new where n: "its' = (its @ [?it]) @ new" "reserved ivm h1 new h'" by blast
      have "update_stock ivm h pid (quantity details) = (True, h1)" using u r by simp
      then have "reserved ivm h [?it] h1" by (rule update_stock_reserved)
      then have "reserved ivm h ([?it] @ new) h'" using n(2) by (rule reserved_trans)
      then show ?thesis using n(1) by auto
    qed
  qed
qed

lemma reserve_products_reserved:
  "reserve_products ivm ps h its g = (its', h', g') \<Longrightarrow>
     \<exists>new. its' = its @ new \<and> reserved ivm h new h'"
proof (induction ivm ps h its g rule: reserve_products.induct)
  case (1 ivm h its g)
  then show ?case by (simp add: reserved_refl)
next
  case (2 ivm p ps h its g)
  show ?case
  proof (cases "is_active (h ! p)")
    case False
    then show ?thesis using 2 by simp
  next
    case True
    obtain qty g1 where q: "randint 1 3 g = (qty, g1)" by (cases "randint 1 3 g")
    obtain r h1 where u: "update_stock ivm h (product_id (h ! p)) qty = (r, h1)"
      by (cases "update_stock ivm h (product_id (h ! p)) qty")
    show ?thesis
    proof (cases r)
      case False
      then have h1: "h1 = h" using u update_stock_failed[of ivm h "product_id (h ! p)" qty h1] by simp
      have rec: "reserve_products ivm ps h1 its g1 = (its', h', g')"
        using "2.prems" True q u False by simp
      have "\<exists>new. its' = its @ new \<and> reserved ivm h1 new h'"
        using "2.IH"(2) True q u False rec by auto
      then show ?thesis using h1 by simp
    next
      case r: True
      let ?it = "\<lparr>ti_product_id = product_id (h ! p), ti_quantity = qty,
                  unit_price = base_price (h ! p),
                  ti_subtotal = round2 (fmul (float_of_int qty) (base_price (h ! p)))\<rparr>"
      have rec: "reserve_products ivm ps h1 (its @ [?it]) g1 = (its', h', g')"
        using "2.prems" True q u r by simp
      have "\<exists>new. its' = (its @ [?it]) @ new \<and> reserved ivm h1 new h'"
        using "2.IH"(1) True q u r rec by auto
      then obtain new where n: "its' = (its @ [?it]) @ new" "reserved ivm h1 new h'" by blast
      have "update_stock ivm h (product_id (h ! p)) qty = (True, h1)" using u r by simp
      then have "reserved ivm h [?it] h1" by (rule update_stock_reserved)
      then have "reserved ivm h ([?it] @ new) h'" using n(2) by (rule reserved_trans)
      then show ?thesis using n(1) by auto
    qed
  qed
qed

subsection \<open>Attempts at a transaction\<close>

lemma attempt_none:
  "products st' = products st \<Longrightarrow> transactions st' = transactions st
     \<Longrightarrow> transaction_counter st' = transaction_counter st \<Longrightarrow> attempt ivm st st' [] False"
  by (simp add: attempt_def reserved_refl)

lemma linked_transaction_attempt:
  assumes "linked_transaction ivm sr st = Inr st'"
  shows "\<exists>valid new h'. reserve_cart ivm (sr_cart sr) (products st) [] = (valid, new, h')
           \<and> attempt ivm st st' new (valid \<and> new \<noteq> [])
           \<and> sessions st' = sessions st \<and> session_counter st' = session_counter st"
proof -
  from assms obtain valid its h' where
    r: "reserve_cart ivm (sr_cart sr) (products st) [] = (valid, its, h')"
    and p: "products st' = h'" "sessions st' = sessions st" "session_counter st' = session_counter st"
    and c: "(\<not> (valid \<and> its \<noteq> []) \<and> transactions st' = transactions st
        \<and> transaction_counter st' = transaction_counter st)
     \<or> (valid \<and> its \<noteq> [] \<and> transaction_counter st' = transaction_counter st + 1
        \<and> (\<exists>t. transactions st' = transactions st @ [t] \<and> priced_from its t))"
    by (rule linked_transaction_cases)
  from reserve_cart_reserved[OF r] have "reserved ivm (products st) its h'" by simp
  then have "attempt ivm st st' its (valid \<and> its \<noteq> [])"
    using p c unfolding attempt_def by auto
  then show ?thesis using r p by blast
qed

lemma standalone_block_attempt:
  assumes "standalone_block cfg users ivm st = Inr st'"
  shows "\<exists>new. attempt ivm st st' new (new \<noteq> [])
           \<and> sessions st' = sessions st \<and> session_counter st' = session_counter st
           \<and> (products st' = products st \<and> new = []
              \<or> (\<exists>ps g g'. reserve_products ivm ps (products st) [] g = (new, products st', g')))"
proof -
  from standalone_block_cases[OF assms]
  have s: "sessions st' = sessions st" "session_counter st' = session_counter st"
    and d: "(products st' = products st \<and> transactions st' = transactions st
           \<and> transaction_counter st' = transaction_counter st)
        \<or> (\<exists>ps its h' g g'.
              reserve_products ivm ps (products st) [] g = (its, h', g')
            \<and> products st' = h'
            \<and> ((its = [] \<and> transactions st' = transactions st
                   \<and> transaction_counter st' = transaction_counter st)
               \<or> (its \<noteq> [] \<and> transaction_counter st' = transaction_counter st + 1
                   \<and> (\<exists>t. transactions st' = transactions st @ [t] \<and> priced_from its t))))"
    by blast+
  from d show ?thesis
  proof
    assume "products st' = products st \<and> transactions st' = transactions st
           \<and> transaction_counter st' = transaction_counter st"
    then have "attempt ivm st st' [] ([] \<noteq> [])"
      using s by (simp add: attempt_def reserved_refl)
    then show ?thesis using \<open>products st' = products st \<and> _\<close> s by blast
  next
    assume "\<exists>ps its h' g g'.
              reserve_products ivm ps (products st) [] g = (its, h', g')
            \<and> products st' = h'
            \<and> ((its = [] \<and> transactions st' = transactions st
                   \<and> transaction_counter st' = transaction_counter st)
               \<or> (its \<noteq> [] \<and> transaction_counter st' = transaction_counter st + 1
                   \<and> (\<exists>t. transactions st' = transactions st @ [t] \<and> priced_from its t)))"
    then obtain ps its h' g g' where
      r: "reserve_products ivm ps (products st) [] g = (its, h', g')" and h': "products st' = h'"
      and c: "(its = [] \<and> transactions st' = transactions st
                   \<and> transaction_counter st' = transaction_counter st)
               \<or> (its \<noteq> [] \<and> transaction_counter st' = transaction_counter st + 1
                   \<and> (\<exists>t. transactions st' = transactions st @ [t] \<and> priced_from its t))"
      by blast
    from reserve_products_reserved[OF r] have "reserved ivm (products st) its h'" by simp
    then have "attempt ivm st st' its (its \<noteq> [])"
      using s h' c unfolding attempt_def by auto
    then show ?thesis using r h' s by blast
  qed
qed

lemma session_block_attempt:
  assumes "session_block cfg users cs ivm st = Inr st'"
  shows "\<exists>sr g new emitted.
           generate_session cfg users cs ivm (products st) (random_state st) = Inr (sr, g)
         \<and> sessions st' = sessions st @ [sr_session sr]
         \<and> session_counter st' = session_counter st + 1
         \<and> attempt ivm st st' new emitted
         \<and> (fst (reserve_cart ivm (sr_cart sr) (products st) []) \<longrightarrow> emitted \<or> new = [])"
  using assms
proof (cases rule: session_block_cases)
  case (1 sr g)
  let ?st1 = "st\<lparr>sessions := sessions st @ [sr_session sr],
        session_counter := session_counter st + 1, random_state := g\<rparr>"
  from linked_transaction_attempt[OF 1(3)]
  obtain valid new h' where r: "reserve_cart ivm (sr_cart sr) (products st) [] = (valid, new, h')"
    and a: "attempt ivm ?st1 st' new (valid \<and> new \<noteq> [])"
    and s: "sessions st' = sessions ?st1" "session_counter st' = session_counter ?st1"
    by auto
  have "attempt ivm st st' new (valid \<and> new \<noteq> [])"
    using a by (auto simp: attempt_def split: if_splits)
  then show ?thesis using 1(1) r s by fastforce
next
  case (2 sr g)
  have "attempt ivm st st' [] False" using 2(2) by (simp add: attempt_none)
  then show ?thesis using 2 by fastforce
qed

lemma loop_body_attempts:
  assumes "loop_body cfg users cs ivm st = Inr st'"
  shows "\<exists>st1 new1 e1 new2.
           attempt ivm st st1 new1 e1 \<and> attempt ivm st1 st' new2 (new2 \<noteq> [])
         \<and> (new1 = [] \<and> \<not> e1 \<and> sessions st' = sessions st
            \<or> (\<exists>sr g. generate_session cfg users cs ivm (products st) (random_state st) = Inr (sr, g)
                  \<and> sessions st' = sessions st @ [sr_session sr]
                  \<and> (fst (reserve_cart ivm (sr_cart sr) (products st) []) \<longrightarrow> e1 \<or> new1 = [])))"
proof -
  from assms obtain st1 where
    b: "(if session_counter st < NUM_SESSIONS cfg then session_block cfg users cs ivm st else Inr st) = Inr st1"
    and s: "standalone_block cfg users ivm st1 = Inr st'"
    by (auto simp: loop_body_def bindE_eq_Inr)
  from standalone_block_attempt[OF s] obtain new2 where
    a2: "attempt ivm st1 st' new2 (new2 \<noteq> [])" and s2: "sessions st' = sessions st1" by blast
  show ?thesis
  proof (cases "session_counter st < NUM_SESSIONS cfg")
    case False
    then have "st1 = st" using b by simp
    then have "attempt ivm st st1 [] False" by (simp add: attempt_none)
    then show ?thesis using a2 s2 \<open>st1 = st\<close> by blast
  next
    case True
    then have "session_block cfg users cs ivm st = Inr st1" using b by simp
    from session_block_attempt[OF this] a2 s2 show ?thesis by fastforce
  qed
qed

lemma attempt_outcome: "attempt ivm st st' new e \<Longrightarrow> emits_at_most_one st st'"
  by (cases e) (auto simp: attempt_def emits_at_most_one_def priced_from_def)

subsection \<open>The rounding of floats\<close>

lemma bit_length_bounds:
  "0 < n \<Longrightarrow> 2 ^ (bit_length n - 1) \<le> n \<and> n < 2 ^ bit_length n"
proof (induction n rule: bit_length.induct)
  case (1 n)
  show ?case
  proof (cases "n div 2 = 0")
    case True
    with 1(2) have "n = 1" by (simp add: div_eq_0_iff)
    then show ?thesis by (simp add: bit_length.simps)
  next
    case False
    define b where "b = bit_length (n div 2)"
    from False 1(2) have ih: "2 ^ (b - 1) \<le> n div 2 \<and> n div 2 < 2 ^ b"
      using "1.IH" by (simp add: b_def)
    have bl: "bit_length n = Suc b" using 1(2) by (simp add: bit_length.simps[of n] b_def)
    have bpos: "0 < b" using False by (simp add: b_def bit_length.simps[of "n div 2"])
    then have p: "(2::nat) ^ b = 2 * 2 ^ (b - 1)" by (cases b) simp_all
    have "2 ^ b \<le> n" using ih p by linarith
    moreover have "n < 2 * 2 ^ b" using ih by linarith
    ultimately show ?thesis by (simp add: bl)
  qed
qed

lemma exponent_bounds:
  assumes "0 < x"
  shows "2 powi (exponent x) \<le> x \<and> x < 2 powi (exponent x + 1)"
proof (cases "1 \<le> x")
  case True
  define n where "n = nat \<lfloor>x\<rfloor>"
  have n: "0 < n" "of_nat n \<le> x" "x < of_nat n + 1"
    using True by (simp_all add: n_def) linarith+
  define b where "b = bit_length n"
  have bb: "2 ^ (b - 1) \<le> n" "n < 2 ^ b" using bit_length_bounds[OF n(1)] by (simp_all add: b_def)
  have bpos: "0 < b" using n(1) by (simp add: b_def bit_length.simps[of n])
  have e: "exponent x = int (b - 1)" using True bpos by (simp add: exponent_def n_def b_def)
  have "(2::rat) ^ (b - 1) \<le> of_nat n" using bb(1) by (metis of_nat_le_iff of_nat_numeral of_nat_power)
  then have lo: "(2::rat) ^ (b - 1) \<le> x" using n(2) by linarith
  have "n + 1 \<le> 2 ^ b" using bb(2) by simp
  then have "(of_nat (n + 1) :: rat) \<le> of_nat (2 ^ b)" by (simp only: of_nat_le_iff)
  then have "(of_nat n :: rat) + 1 \<le> 2 ^ b" by simp
  then have hi: "x < 2 ^ b" using n(3) by linarith
  have pl: "(2::rat) powi (exponent x) = 2 ^ (b - 1)"
    unfolding e by (rule power_int_of_nat)
  have "exponent x + 1 = int b" using bpos e by simp
  then have ph: "(2::rat) powi (exponent x + 1) = 2 ^ b"
    by (simp only: power_int_of_nat)
  show ?thesis using lo hi by (simp only: pl ph)
next
  case False
  then have x1: "x < 1" by simp
  define y where "y = 1 / x"
  have y1: "1 < y" using assms x1 by (simp add: y_def)
  define n where "n = nat (\<lceil>y\<rceil> - 1)"
  have c: "of_int \<lceil>y\<rceil> - 1 < y" "y \<le> of_int \<lceil>y\<rceil>" by linarith+
  have c2: "2 \<le> \<lceil>y\<rceil>" using y1 by linarith
  have n: "0 < n" "of_nat n < y" "y \<le> of_nat n + 1"
    using c c2 by (simp_all add: n_def)
  define b where "b = bit_length n"
  have bb: "2 ^ (b - 1) \<le> n" "n < 2 ^ b" using bit_length_bounds[OF n(1)] by (simp_all add: b_def)
  have bpos: "0 < b" using n(1) by (simp add: b_def bit_length.simps[of n])
  have e: "exponent x = - int b" using False by (simp add: exponent_def n_def b_def y_def)
  have "(2::rat) ^ (b - 1) \<le> of_nat n" using bb(1) by (metis of_nat_le_iff of_nat_numeral of_nat_power)
  then have lo: "(2::rat) ^ (b - 1) < y" using n(2) by linarith
  have "n + 1 \<le> 2 ^ b" using bb(2) by simp
  then have "(of_nat (n + 1) :: rat) \<le> of_nat (2 ^ b)" by (simp only: of_nat_le_iff)
  then have "(of_nat n :: rat) + 1 \<le> 2 ^ b" by simp
  then have hi: "y \<le> 2 ^ b" using n(3) by linarith
  have xy: "x = 1 / y" by (simp add: y_def)
  have a: "1 / 2 ^ b \<le> x" unfolding xy using hi y1 by (simp add: frac_le)
  have b': "x < 1 / 2 ^ (b - 1)" unfolding xy using lo by (simp add: frac_less2)
  have p1: "(2::rat) powi (- int b) = 1 / 2 ^ b"
    by (simp add: power_int_minus field_simps)
  have m: "- int b + 1 = - int (b - 1)" using bpos by simp
  have p2: "(2::rat) powi (- int b + 1) = 1 / 2 ^ (b - 1)"
    unfolding m by (simp only: power_int_minus power_int_of_nat inverse_eq_divide)
  show ?thesis using a b' e p1 p2 by simp
qed

lemma pow2_less_cancel:
  assumes "(2::rat) powi a < 2 powi b"
  shows "a < b"
proof (rule ccontr)
  assume "\<not> a < b"
  then have "b \<le> a" by simp
  then have "(2::rat) powi b \<le> 2 powi a" by (rule power_int_increasing) simp
  with assms show False by simp
qed

lemma exponent_unique:
  assumes "0 < x" and "2 powi e \<le> x" and "x < 2 powi (e + 1)"
  shows "exponent x = e"
proof -
  from exponent_bounds[OF assms(1)]
  have b: "2 powi (exponent x) \<le> x" "x < 2 powi (exponent x + 1)" by simp_all
  have "(2::rat) powi e < 2 powi (exponent x + 1)" using assms(2) b(2) by linarith
  then have 1: "e < exponent x + 1" by (rule pow2_less_cancel)
  have "(2::rat) powi (exponent x) < 2 powi (e + 1)" using assms(3) b(1) by linarith
  then have 2: "exponent x < e + 1" by (rule pow2_less_cancel)
  from 1 2 show ?thesis by simp
qed

lemma round_half_even_of_int [simp]: "round_half_even (of_int k) = k"
  by (simp add: round_half_even_def)

lemma round_half_even_ge: "of_int k \<le> y \<Longrightarrow> k \<le> round_half_even y"
  by (simp add: round_half_even_def Let_def le_floor_iff) linarith

lemma round_half_even_le: "y \<le> of_int k \<Longrightarrow> round_half_even y \<le> k"
proof -
  assume a: "y \<le> of_int k"
  show ?thesis
  proof (cases "y = of_int \<lfloor>y\<rfloor>")
    case True
    then have "round_half_even y = \<lfloor>y\<rfloor>" by (metis round_half_even_of_int)
    then show ?thesis using a by (simp add: floor_le_iff)
  next
    case False
    then have "of_int \<lfloor>y\<rfloor> < y" using of_int_floor_le[of y] by linarith
    then have "of_int \<lfloor>y\<rfloor> < (of_int k :: rat)" using a by linarith
    then have "\<lfloor>y\<rfloor> + 1 \<le> k" by simp
    then show ?thesis by (simp add: round_half_even_def Let_def)
  qed
qed

lemma float64_minus: "float64 (- x) = - float64 x"
  by (simp add: float64_def Let_def sgn_minus)

lemma float64_pos:
  "0 < z \<Longrightarrow> float64 z = of_int (round_half_even (z / 2 powi (exponent z - 52))) * 2 powi (exponent z - 52)"
  by (simp add: float64_def Let_def)

lemma float64_pos_idem:
  assumes "0 < x"
  shows "float64 (float64 x) = float64 x \<and> 0 < float64 x"
proof -
  define e where "e = exponent x"
  define u :: rat where "u = 2 powi (e - 52)"
  define r where "r = round_half_even (x / u)"
  define z where "z = of_int r * u"
  have u: "0 < u" by (simp add: u_def)
  have fx: "float64 x = z" using float64_pos[OF assms] by (simp add: e_def u_def r_def z_def)
  have pe: "(2::rat) powi e = 2 ^ 52 * u" "(2::rat) powi (e + 1) = 2 ^ 53 * u"
    by (simp_all add: u_def power_int_diff power_int_add)
  from exponent_bounds[OF assms] have "2 ^ 52 * u \<le> x" "x < 2 ^ 53 * u"
    by (simp_all add: e_def[symmetric] pe)
  then have y: "(2::rat) ^ 52 \<le> x / u" "x / u \<le> 2 ^ 53" using u by (simp_all add: field_simps)
  have y': "of_int (2 ^ 52) \<le> x / u" "x / u \<le> of_int (2 ^ 53)" using y by simp_all
  have r: "2 ^ 52 \<le> r" "r \<le> 2 ^ 53"
    unfolding r_def using y' by (simp_all only: round_half_even_ge round_half_even_le)
  have "(of_int (2 ^ 52) :: rat) \<le> of_int r" using r(1) by (simp only: of_int_le_iff)
  then have lo: "2 ^ 52 * u \<le> z" using u by (simp add: z_def)
  have "0 < 2 ^ 52 * u" using u by simp
  with lo have zpos: "0 < z" by linarith
  have "float64 z = z"
  proof (cases "r = 2 ^ 53")
    case True
    have zz: "z = 2 ^ 53 * u" by (simp add: z_def True)
    then have ze: "z = 2 powi (e + 1)" using pe by simp
    have "z < 2 powi (e + 1 + 1)" unfolding ze by (rule power_int_strict_increasing) simp_all
    moreover have "2 powi (e + 1) \<le> z" using ze by simp
    ultimately have ex: "exponent z = e + 1" using zpos exponent_unique by blast
    have u2: "(2::rat) powi (e + 1 - 52) = 2 * u" by (simp add: u_def power_int_diff power_int_add)
    have "z / (2 * u) = of_int (2 ^ 52)" using u by (simp add: zz)
    then have "round_half_even (z / (2 * u)) = 2 ^ 52" by (simp only: round_half_even_of_int)
    then have "float64 z = of_int (2 ^ 52) * (2 * u)"
      using float64_pos[OF zpos] by (simp only: ex u2)
    then show ?thesis by (simp add: zz)
  next
    case False
    then have "r < 2 ^ 53" using r(2) by simp
    then have "(of_int r :: rat) < of_int (2 ^ 53)" by (simp only: of_int_less_iff)
    then have "z < 2 ^ 53 * u" using u by (simp add: z_def)
    then have ex: "exponent z = e"
      using lo zpos exponent_unique pe by metis
    have "z / u = of_int r" using u by (simp add: z_def)
    then have "round_half_even (z / u) = r" by (simp only: round_half_even_of_int)
    then have "float64 z = of_int r * u"
      using float64_pos[OF zpos] by (simp only: ex u_def[symmetric])
    then show ?thesis by (simp add: z_def)
  qed
  then show ?thesis using fx zpos by simp
qed

lemma float64_idem [simp]: "float64 (float64 x) = float64 x"
proof -
  consider "0 < x" | "x = 0" | "x < 0" by linarith
  then show ?thesis
  proof cases
    case 1
    then show ?thesis using float64_pos_idem by blast
  next
    case 2
    then show ?thesis by (simp add: float64_def)
  next
    case 3
    then have "0 < - x" by simp
    from float64_pos_idem[OF this] show ?thesis by (simp add: float64_minus)
  qed
qed

lemma float64_zero [simp]: "float64 0 = 0"
  by (simp add: float64_def)

lemma round2_float [simp]: "float64 (round2 x) = round2 x"
  by (simp add: round2_def)

lemma float_sum_snoc: "float_sum (xs @ [x]) = fadd (float_sum xs) x"
  by (simp add: float_sum_def)

lemma float_sum_float [simp]: "float64 (float_sum xs) = float_sum xs"
  by (cases xs rule: rev_cases) (simp_all add: float_sum_def fadd_def)



lemma round_half_even_nearest: "\<bar>y - of_int (round_half_even y)\<bar> \<le> 1 / 2"
proof -
  have "of_int \<lfloor>y\<rfloor> \<le> y" "y < of_int \<lfloor>y\<rfloor> + 1" by linarith+
  then show ?thesis by (auto simp: round_half_even_def Let_def)
qed

lemma float64_nearest: "\<bar>float64 x - x\<bar> \<le> \<bar>x\<bar> / 2 ^ 53"
proof -
  have pos: "\<bar>float64 x - x\<bar> \<le> x / 2 ^ 53" if "0 < x" for x
  proof -
    define u :: rat where "u = 2 powi (exponent x - 52)"
    define r where "r = round_half_even (x / u)"
    have u: "0 < u" by (simp add: u_def)
    have fx: "float64 x = of_int r * u" using float64_pos[OF that] by (simp add: u_def r_def)
    have "\<bar>x / u - of_int r\<bar> \<le> 1 / 2" unfolding r_def by (rule round_half_even_nearest)
    then have "\<bar>x / u - of_int r\<bar> * u \<le> 1 / 2 * u" using u by (simp only: mult_le_cancel_right_pos)
    moreover have "\<bar>x / u - of_int r\<bar> * u = \<bar>x - of_int r * u\<bar>"
      using u by (simp add: abs_mult_pos[symmetric] field_simps)
    ultimately have e: "\<bar>x - of_int r * u\<bar> \<le> u / 2" by simp
    have "(2::rat) powi (exponent x) = 2 ^ 52 * u"
      by (simp add: u_def power_int_diff)
    then have "2 ^ 52 * u \<le> x" using exponent_bounds[OF that] by simp
    then have "u / 2 \<le> x / 2 ^ 53" by (simp add: field_simps)
    with e fx show ?thesis by (simp add: abs_minus_commute)
  qed
  consider "0 < x" | "x = 0" | "x < 0" by linarith
  then show ?thesis
  proof cases
    case 1
    then show ?thesis using pos by simp
  next
    case 2
    then show ?thesis by simp
  next
    case 3
    then have "0 < - x" by simp
    from pos[OF this] have "\<bar>- float64 x + x\<bar> \<le> - x / 2 ^ 53" by (simp add: float64_minus)
    moreover have "\<bar>- float64 x + x\<bar> = \<bar>float64 x - x\<bar>" by (simp add: abs_minus_commute)
    ultimately show ?thesis using 3 by simp
  qed
qed

lemma round2_nearest:
  "\<exists>k. round2 x = float64 (of_int k / 100) \<and> \<bar>x * 100 - of_int k\<bar> \<le> 1 / 2"
  unfolding round2_def using round_half_even_nearest by blast

subsection \<open>Invariants of the loop\<close>

lemma attempt_emitted_ok:
  assumes "attempt ivm st st' new e" and "emitted_ok st"
  shows "emitted_ok st'"
proof (cases e)
  case False
  then show ?thesis using assms by (simp add: attempt_def emitted_ok_def)
next
  case True
  then obtain t where t: "transactions st' = transactions st @ [t]" "priced_from new t"
    and n: "new \<noteq> []" "transaction_counter st' = transaction_counter st + 1"
    using assms(1) by (auto simp: attempt_def)
  have "\<forall>it \<in> set new. item_ok it" using assms(1) by (simp add: attempt_def reserved_def)
  moreover have "items t = new" using t(2) by (simp add: priced_from_def)
  ultimately have "transaction_ok t" using t(2) n(1) by (simp add: transaction_ok_def)
  then show ?thesis using assms(2) t(1) n(2) by (auto simp: emitted_ok_def)
qed

lemma attempt_nonneg:
  "attempt ivm st st' new e \<Longrightarrow> stock_nonneg (products st) \<Longrightarrow> stock_nonneg (products st')"
  by (simp add: attempt_def reserved_def)

lemma loop_body_emitted_ok:
  assumes "emitted_ok st" and "loop_body cfg users cs ivm st = Inr st'"
  shows "emitted_ok st'"
proof -
  from loop_body_attempts[OF assms(2)] obtain st1 new1 e1 new2 where
    "attempt ivm st st1 new1 e1" "attempt ivm st1 st' new2 (new2 \<noteq> [])" by blast
  then show ?thesis using assms(1) attempt_emitted_ok by blast
qed

lemma loop_body_nonneg:
  assumes "stock_nonneg (products st)" and "loop_body cfg users cs ivm st = Inr st'"
  shows "stock_nonneg (products st')"
proof -
  from loop_body_attempts[OF assms(2)] obtain st1 new1 e1 new2 where
    "attempt ivm st st1 new1 e1" "attempt ivm st1 st' new2 (new2 \<noteq> [])" by blast
  then show ?thesis using assms(1) attempt_nonneg by blast
qed

lemma generate_emitted_ok:
  assumes "generate cfg users cs catalog g = Inr st"
  shows "emitted_ok st"
proof (rule generation_loop_invariant[where I = emitted_ok])
  show "generation_loop cfg users cs (InventoryManager_init catalog) 0 (initial_state catalog g) = Inr st"
    using assms by (simp add: generate_def)
  show "emitted_ok (initial_state catalog g)"
    by (simp add: emitted_ok_def initial_state_def)
  show "\<And>s s'. emitted_ok s \<Longrightarrow> loop_body cfg users cs (InventoryManager_init catalog) s = Inr s'
          \<Longrightarrow> emitted_ok s'"
    by (rule loop_body_emitted_ok)
qed

lemma generate_nonneg:
  assumes "generate cfg users cs catalog g = Inr st" and "stock_nonneg catalog"
  shows "stock_nonneg (products st)"
proof (rule generation_loop_invariant[where I = "\<lambda>s. stock_nonneg (products s)"])
  show "generation_loop cfg users cs (InventoryManager_init catalog) 0 (initial_state catalog g) = Inr st"
    using assms by (simp add: generate_def)
  show "stock_nonneg (products (initial_state catalog g))"
    using assms(2) by (simp add: initial_state_def)
  show "\<And>s s'. stock_nonneg (products s) \<Longrightarrow> loop_body cfg users cs (InventoryManager_init catalog) s = Inr s'
          \<Longrightarrow> stock_nonneg (products s')"
    by (rule loop_body_nonneg)
qed


subsection \<open>Time slots\<close>

lemma draw_offsets_range:
  "1 \<le> hi \<Longrightarrow> draw_offsets n hi g = (xs, g') \<Longrightarrow>
     length xs = n \<and> (\<forall>x \<in> set xs. 1 \<le> x \<and> x \<le> hi)"
proof (induction n arbitrary: g xs g')
  case 0
  then show ?case by simp
next
  case (Suc n)
  obtain x g1 where r: "randint 1 hi g = (x, g1)" by (cases "randint 1 hi g")
  obtain ys g2 where d: "draw_offsets n hi g1 = (ys, g2)" by (cases "draw_offsets n hi g1")
  have xs: "xs = x # ys" and "g' = g2" using Suc.prems(2) r d by simp_all
  have "1 \<le> x \<and> x \<le> hi" using randint_range[OF Suc.prems(1) r] .
  moreover have "length ys = n \<and> (\<forall>x \<in> set ys. 1 \<le> x \<and> x \<le> hi)"
    using Suc.IH[OF Suc.prems(1) d] .
  ultimately show ?case using xs by simp
qed

lemma sorted_hd_least: "sorted xs \<Longrightarrow> x \<in> set xs \<Longrightarrow> hd xs \<le> x"
  by (cases xs) auto

lemma sorted_last_greatest: "sorted xs \<Longrightarrow> x \<in> set xs \<Longrightarrow> x \<le> last xs"
  by (induction xs) (auto split: if_splits)

lemma telescope_nth:
  fixes ts :: "int list"
  shows "sum_list (map (\<lambda>i. ts ! (i + 1) - ts ! i) [0..<n]) = ts ! n - ts ! 0"
  by (induction n) simp_all

text \<open>What the script's time slots are, for a duration of at least 2 and at least one offset.\<close>

lemma time_slots_properties:
  assumes d: "2 \<le> d" and offs: "\<forall>x \<in> set offsets. 1 \<le> x \<and> x \<le> d - 1" and ne: "offsets \<noteq> []"
  defines "ts \<equiv> time_slots_of d offsets"
  shows "sorted_wrt (<) ts" and "hd ts = 0" and "last ts = d"
    and "3 \<le> length ts" and "length ts \<le> length offsets + 2"
proof -
  have set_ts: "set ts = insert 0 (insert d (set offsets))"
    by (auto simp: ts_def time_slots_of_def)
  have srt: "sorted ts" and dst: "distinct ts"
    by (simp_all add: ts_def time_slots_of_def)
  then show "sorted_wrt (<) ts" by (simp add: strict_sorted_iff)
  have nonempty: "ts \<noteq> []" using set_ts by auto
  have ge0: "\<forall>x \<in> set ts. 0 \<le> x" and led: "\<forall>x \<in> set ts. x \<le> d"
    using set_ts offs d by auto
  have "hd ts \<le> 0" using sorted_hd_least[OF srt, of 0] set_ts by simp
  moreover have "0 \<le> hd ts" using ge0 nonempty by simp
  ultimately show "hd ts = 0" by simp
  have "d \<le> last ts" using sorted_last_greatest[OF srt, of d] set_ts by simp
  moreover have "last ts \<le> d" using led nonempty by simp
  ultimately show "last ts = d" by simp
  obtain x where x: "x \<in> set offsets" using ne by (cases offsets) auto
  then have "1 \<le> x" "x \<le> d - 1" using offs by auto
  then have "card {0, x, d} = 3" using d by simp
  moreover have "{0, x, d} \<subseteq> set ts" using set_ts x by auto
  ultimately have "3 \<le> card (set ts)"
    using card_mono[of "set ts" "{0, x, d}"] by simp
  then show "3 \<le> length ts" using dst by (simp add: distinct_card)
  have "length ts = length (remdups ([0] @ offsets @ [d]))"
    by (simp add: ts_def time_slots_of_def)
  also have "\<dots> \<le> length ([0] @ offsets @ [d])" by (rule length_remdups_leq)
  finally show "length ts \<le> length offsets + 2" by simp
qed

subsection \<open>The cart of a session\<close>

lemma cart_ok_Nil: "cart_ok ivm h []"
  by (simp add: cart_ok_def)

lemma add_to_cart_ledger:
  "add_to_cart ivm h p cart g = Inr r \<Longrightarrow> \<exists>lp. get_product ivm h (product_id (h ! p)) = Some lp"
  by (cases "get_product ivm h (product_id (h ! p))") (auto simp: add_to_cart_def Let_def)

lemma add_to_cart_cart_ok:
  assumes a: "add_to_cart ivm h p cart g = Inr (cart', g')" and ok: "cart_ok ivm h cart"
  shows "cart_ok ivm h cart'"
proof -
  define pid where "pid = product_id (h ! p)"
  obtain lp where lp: "get_product ivm h pid = Some lp"
    using add_to_cart_ledger[OF a] pid_def by blast
  define stock_left where "stock_left = current_stock lp - cart_qty cart pid"
  from add_to_cart_cases[OF lp[unfolded pid_def], of cart g] a
  have ne: "map_of cart' pid \<noteq> None"
    and cap: "if 0 < min 3 stock_left
               then cart_qty cart' pid - cart_qty cart pid \<le> min 3 stock_left
               else cart_qty cart' pid = cart_qty cart pid"
    and other: "\<forall>pid'. pid' \<noteq> pid \<longrightarrow> map_of cart' pid' = map_of cart pid'"
    and keys: "map fst cart' = (if map_of cart pid = None then map fst cart @ [pid] else map fst cart)"
    unfolding pid_def stock_left_def by (auto split: if_splits)
  have dist: "distinct (map fst cart')"
  proof (cases "map_of cart pid")
    case None
    then have "pid \<notin> set (map fst cart)" by (simp add: map_of_eq_None_iff)
    then show ?thesis using keys None ok by (simp add: cart_ok_def)
  next
    case (Some e0)
    then show ?thesis using keys ok by (simp add: cart_ok_def)
  qed
  have cov: "\<exists>lp'. get_product ivm h pid' = Some lp' \<and> quantity e \<le> current_stock lp'"
    if e: "map_of cart' pid' = Some e" and pos: "0 < quantity e" for pid' e
  proof (cases "pid' = pid")
    case False
    then have "map_of cart pid' = Some e" using other e by simp
    then show ?thesis using ok pos by (simp add: cart_ok_def)
  next
    case True
    then have q: "cart_qty cart' pid = quantity e" using e by (simp add: cart_qty_def)
    show ?thesis
    proof (cases "0 < min 3 stock_left")
      case True
      then have "cart_qty cart' pid - cart_qty cart pid \<le> stock_left" using cap by simp
      then have "quantity e \<le> current_stock lp" using q by (simp add: stock_left_def)
      then show ?thesis using lp \<open>pid' = pid\<close> by simp
    next
      case False
      then have same: "cart_qty cart pid = quantity e" using cap q by simp
      then obtain e0 where e0: "map_of cart pid = Some e0" "quantity e0 = quantity e"
        using pos by (cases "map_of cart pid") (auto simp: cart_qty_def)
      then have "\<exists>lp'. get_product ivm h pid = Some lp' \<and> quantity e0 \<le> current_stock lp'"
        using ok pos unfolding cart_ok_def by metis
      then show ?thesis using e0 \<open>pid' = pid\<close> by simp
    qed
  qed
  show ?thesis unfolding cart_ok_def using dist cov by blast
qed

lemma page_view_step_cases:
  assumes "page_view_step ivm h cs s0 ts i (pvs, viewed, cart, g) = Inr (pvs', viewed', cart', g')"
  shows "\<exists>pt prod cat.
           pvs' = pvs @ [\<lparr>timestamp = s0 + ts ! i, page_type = pt, pv_product_id = prod,
                          pv_category_id = cat, view_duration = ts ! (i + 1) - ts ! i\<rparr>]
         \<and> (cart' = cart \<or> (\<exists>p g3 g4. add_to_cart ivm h p cart g3 = Inr (cart', g4)))"
  using assms unfolding page_view_step_def Let_def
  apply (clarsimp simp: bindE_eq_Inr)
  subgoal for pt g1 prod cat g2
    apply (cases prod; cases "pt = ''product_detail''"; cases "random_unit g2")
           apply (auto simp: bindE_eq_Inr split: if_splits)
    done
  done

lemma page_view_step_cart_ok:
  assumes "page_view_step ivm h cs s0 ts i (pvs, viewed, cart, g) = Inr (pvs', viewed', cart', g')"
      and "cart_ok ivm h cart"
  shows "cart_ok ivm h cart'"
  using page_view_step_cases[OF assms(1)] assms(2) add_to_cart_cart_ok by blast

lemma page_view_loop_views:
  "page_view_loop ivm h cs s0 ts is (pvs, viewed, cart, g) = Inr (pvs', viewed', cart', g') \<Longrightarrow>
     map timestamp pvs' = map timestamp pvs @ map (\<lambda>i. s0 + ts ! i) is
   \<and> map view_duration pvs' = map view_duration pvs @ map (\<lambda>i. ts ! (i + 1) - ts ! i) is
   \<and> (cart_ok ivm h cart \<longrightarrow> cart_ok ivm h cart')"
proof (induction "is" arbitrary: pvs viewed cart g)
  case Nil
  then show ?case by simp
next
  case (Cons i "is")
  from Cons.prems obtain pvs1 viewed1 cart1 g1 where
    s: "page_view_step ivm h cs s0 ts i (pvs, viewed, cart, g) = Inr (pvs1, viewed1, cart1, g1)"
    and l: "page_view_loop ivm h cs s0 ts is (pvs1, viewed1, cart1, g1) = Inr (pvs', viewed', cart', g')"
    by (auto simp: bindE_eq_Inr)
  from page_view_step_cases[OF s] obtain pv where
    pv: "pvs1 = pvs @ [pv]" "timestamp pv = s0 + ts ! i" "view_duration pv = ts ! (i + 1) - ts ! i"
    by auto
  have c: "cart_ok ivm h cart \<longrightarrow> cart_ok ivm h cart1"
    using page_view_step_cart_ok[OF s] by blast
  from Cons.IH[OF l] pv c show ?case by simp
qed

subsection \<open>What a generated session is\<close>

lemma session_record_cases:
  assumes "session_record sid usr s0 d viewed pvs cart converted g = Inr (s, g')"
  shows "page_views s = pvs \<and> start_time s = s0 \<and> duration_seconds s = d
    \<and> end_time s = s0 + d \<and> session_id s = sid
    \<and> cart_contents s = filter (\<lambda>(k, v). quantity v > 0) cart
    \<and> conversion_status s =
         (if converted then ''converted'' else if cart \<noteq> [] then ''abandoned'' else ''browsed'')"
proof -
  obtain ip g1 where ip: "ipv4 g = (ip, g1)" by (cases "ipv4 g")
  from assms ip obtain dev g2 where dev: "choice [''mobile'', ''desktop'', ''tablet''] g1 = Inr (dev, g2)"
    unfolding session_record_def by (cases "choice [''mobile'', ''desktop'', ''tablet''] g1") auto
  from assms ip dev obtain os g3 where os: "choice [''iOS'', ''Android'', ''Windows'', ''macOS''] g2 = Inr (os, g3)"
    unfolding session_record_def by (cases "choice [''iOS'', ''Android'', ''Windows'', ''macOS''] g2") auto
  from assms ip dev os obtain br g4 where br: "choice [''Chrome'', ''Safari'', ''Firefox'', ''Edge''] g3 = Inr (br, g4)"
    unfolding session_record_def by (cases "choice [''Chrome'', ''Safari'', ''Firefox'', ''Edge''] g3") auto
  from assms ip dev os br obtain ref g5 where
    ref: "choice [''direct'', ''email'', ''social'', ''search_engine'', ''affiliate''] g4 = Inr (ref, g5)"
    unfolding session_record_def
    by (cases "choice [''direct'', ''email'', ''social'', ''search_engine'', ''affiliate''] g4") auto
  from assms ip dev os br ref show ?thesis
    unfolding session_record_def by auto
qed

lemma conversion_logic_cases:
  "conversion_logic cart pvs g = (converted, g') \<Longrightarrow> converted \<Longrightarrow>
     cart \<noteq> [] \<and> (\<exists>p \<in> set pvs. page_type p \<in> {''checkout'', ''confirmation''})"
  by (auto simp: conversion_logic_def split: if_splits)

lemma generate_session_cases:
  assumes "generate_session cfg users cs ivm h g = Inr (sr, g')"
  shows "\<exists>offsets pvs viewed cart ga gb s0 d.
      30 \<le> d \<and> d \<le> 3600 \<and> 4 \<le> length offsets \<and> length offsets \<le> 12
    \<and> (\<forall>x \<in> set offsets. 1 \<le> x \<and> x \<le> d - 1)
    \<and> page_view_loop ivm h cs s0 (time_slots_of d offsets)
          [0..<length (time_slots_of d offsets) - 1] ([], {}, [], ga) = Inr (pvs, viewed, cart, gb)
    \<and> page_views (sr_session sr) = pvs \<and> start_time (sr_session sr) = s0
    \<and> duration_seconds (sr_session sr) = d \<and> sr_cart sr = cart
    \<and> cart_contents (sr_session sr) = filter (\<lambda>(k, v). quantity v > 0) cart
    \<and> conversion_status (sr_session sr) =
         (if sr_converted sr then ''converted''
          else if cart \<noteq> [] then ''abandoned'' else ''browsed'')
    \<and> (sr_converted sr \<longrightarrow>
          cart \<noteq> [] \<and> (\<exists>p \<in> set pvs. page_type p \<in> {''checkout'', ''confirmation''}))"
proof -
  from assms obtain usr g1 where c: "choice users g = Inr (usr, g1)"
    unfolding generate_session_def by (cases "choice users g") auto
  obtain sid g2 where sid: "uuid4 g1 = (sid, g2)" by (cases "uuid4 g1")
  obtain s0 g3 where s0: "date_time_between (TIMESPAN_DAYS cfg) g2 = (s0, g3)"
    by (cases "date_time_between (TIMESPAN_DAYS cfg) g2")
  obtain d g4 where d: "randint 30 3600 g3 = (d, g4)" by (cases "randint 30 3600 g3")
  obtain n g5 where n: "randint 4 12 g4 = (n, g5)" by (cases "randint 4 12 g4")
  obtain offsets g6 where o: "draw_offsets (nat n) (max 2 (d - 1)) g5 = (offsets, g6)"
    by (cases "draw_offsets (nat n) (max 2 (d - 1)) g5")
  have dr: "30 \<le> d \<and> d \<le> 3600" using randint_range[OF _ d] by simp
  have nr: "4 \<le> n \<and> n \<le> 12" using randint_range[OF _ n] by simp
  have "(1::int) \<le> max 2 (d - 1)" by simp
  from draw_offsets_range[OF this o]
  have lo: "length offsets = nat n" and ro: "\<forall>x \<in> set offsets. 1 \<le> x \<and> x \<le> max 2 (d - 1)"
    by blast+
  have "4 \<le> nat n" "nat n \<le> 12" using nr by linarith+
  then have ol: "4 \<le> length offsets" "length offsets \<le> 12" using lo by simp_all
  have "max 2 (d - 1) = d - 1" using dr by simp
  then have "\<forall>x \<in> set offsets. 1 \<le> x \<and> x \<le> d - 1" using ro by simp
  note or = ol this
  define ts where "ts = time_slots_of d offsets"
  define rest where "rest = (\<lambda>(pvs, viewed, cart, g7).
      (case conversion_logic cart pvs g7 of (converted, g8) \<Rightarrow>
      bindE (session_record sid usr s0 d viewed pvs cart converted g8)
        (\<lambda>(s, g9).
      Inr (\<lparr>sr_session = s, sr_user = usr, sr_cart = cart, sr_converted = converted\<rparr>, g9))))"
  have "generate_session cfg users cs ivm h g =
      bindE (page_view_loop ivm h cs s0 ts [0..<length ts - 1] ([], {}, [], g6)) rest"
    unfolding generate_session_def rest_def ts_def Let_def
    by (simp add: c sid s0 d n o)
  with assms obtain pvs viewed cart g7 where
    l: "page_view_loop ivm h cs s0 ts [0..<length ts - 1] ([], {}, [], g6) = Inr (pvs, viewed, cart, g7)"
    and r: "rest (pvs, viewed, cart, g7) = Inr (sr, g')"
    by (auto simp: bindE_eq_Inr)
  obtain converted g8 where cv: "conversion_logic cart pvs g7 = (converted, g8)"
    by (cases "conversion_logic cart pvs g7")
  from r cv obtain s g9 where
    rec: "session_record sid usr s0 d viewed pvs cart converted g8 = Inr (s, g9)"
    and sr: "sr = \<lparr>sr_session = s, sr_user = usr, sr_cart = cart, sr_converted = converted\<rparr>"
    by (auto simp: rest_def bindE_eq_Inr)
  from session_record_cases[OF rec] sr conversion_logic_cases[OF cv]
  have "page_views (sr_session sr) = pvs \<and> start_time (sr_session sr) = s0
    \<and> duration_seconds (sr_session sr) = d \<and> sr_cart sr = cart
    \<and> cart_contents (sr_session sr) = filter (\<lambda>(k, v). quantity v > 0) cart
    \<and> conversion_status (sr_session sr) =
         (if sr_converted sr then ''converted''
          else if cart \<noteq> [] then ''abandoned'' else ''browsed'')
    \<and> (sr_converted sr \<longrightarrow>
          cart \<noteq> [] \<and> (\<exists>p \<in> set pvs. page_type p \<in> {''checkout'', ''confirmation''}))"
    by simp
  then show ?thesis using dr or l unfolding ts_def by blast
qed

subsection \<open>Emitted sessions\<close>

lemma strict_slots_views:
  fixes ts :: "int list"
  assumes st: "sorted_wrt (<) ts" and n: "n < length ts"
  shows "sorted_wrt (<) (map (\<lambda>i. s0 + ts ! i) [0..<n])"
    and "\<forall>i \<in> set [0..<n]. 0 < ts ! (i + 1) - ts ! i"
proof -
  have mono: "ts ! i < ts ! j" if "i < j" "j < length ts" for i j
    using st that by (simp add: sorted_wrt_iff_nth_less)
  have "s0 + ts ! i < s0 + ts ! j" if "i < j" "j < n" for i j
    using that n mono[of i j] by simp
  then show "sorted_wrt (<) (map (\<lambda>i. s0 + ts ! i) [0..<n])"
    by (simp add: sorted_wrt_iff_nth_less)
  show "\<forall>i \<in> set [0..<n]. 0 < ts ! (i + 1) - ts ! i"
    using mono n by force
qed

lemma generate_session_ok:
  assumes "generate_session cfg users cs ivm h g = Inr (sr, g')"
  shows "session_ok (sr_session sr)"
proof -
  from generate_session_cases[OF assms] obtain offsets pvs viewed cart ga gb s0 d where
    dr: "30 \<le> d" "d \<le> 3600" and ol: "4 \<le> length offsets" "length offsets \<le> 12"
    and orange: "\<forall>x \<in> set offsets. 1 \<le> x \<and> x \<le> d - 1"
    and l: "page_view_loop ivm h cs s0 (time_slots_of d offsets)
          [0..<length (time_slots_of d offsets) - 1] ([], {}, [], ga) = Inr (pvs, viewed, cart, gb)"
    and f: "page_views (sr_session sr) = pvs" "duration_seconds (sr_session sr) = d"
    and cs: "conversion_status (sr_session sr) =
         (if sr_converted sr then ''converted''
          else if cart \<noteq> [] then ''abandoned'' else ''browsed'')"
    and cv: "sr_converted sr \<longrightarrow>
          cart \<noteq> [] \<and> (\<exists>p \<in> set pvs. page_type p \<in> {''checkout'', ''confirmation''})"
    by blast
  define ts where "ts = time_slots_of d offsets"
  define n where "n = length ts - 1"
  have ne: "offsets \<noteq> []" using ol by auto
  have d2: "2 \<le> d" using dr by simp
  note tp = time_slots_properties[OF d2 orange ne, folded ts_def]
  have len: "3 \<le> length ts" "length ts \<le> 14" using tp(4,5) ol by simp_all
  have n: "n < length ts" "2 \<le> n" "n \<le> 13" using len by (simp_all add: n_def)
  from page_view_loop_views[OF l] ts_def n_def
  have tv: "map timestamp pvs = map (\<lambda>i. s0 + ts ! i) [0..<n]"
    and vd: "map view_duration pvs = map (\<lambda>i. ts ! (i + 1) - ts ! i) [0..<n]"
    by simp_all
  have lp: "length pvs = n" using tv by (metis length_map length_upt minus_nat.diff_0)
  have srt: "sorted_wrt (<) (map timestamp pvs)"
    using strict_slots_views(1)[OF tp(1) n(1)] tv by simp
  have "\<forall>v \<in> set (map view_duration pvs). 0 < v"
    using strict_slots_views(2)[OF tp(1) n(1)] vd by auto
  then have pos: "\<forall>pv \<in> set pvs. 0 < view_duration pv" by simp
  have tne: "ts \<noteq> []" using len by auto
  have "hd ts = ts ! 0" using tne by (rule hd_conv_nth)
  moreover have "last ts = ts ! n" using tne by (simp add: last_conv_nth n_def)
  ultimately have "ts ! n - ts ! 0 = d" using tp(2,3) by simp
  then have sm: "sum_list (map view_duration pvs) = d"
    using vd telescope_nth[of ts n] by simp
  have conv: "conversion_status (sr_session sr) = ''converted'' \<longrightarrow>
          (\<exists>p \<in> set pvs. page_type p \<in> {''checkout'', ''confirmation''})"
    using cs cv by (auto split: if_splits)
  show ?thesis
    unfolding session_ok_def using f srt pos sm lp n(2,3) dr conv by simp
qed

lemma generate_session_cart_ok:
  assumes "generate_session cfg users cs ivm h g = Inr (sr, g')"
  shows "cart_ok ivm h (sr_cart sr)"
proof -
  from generate_session_cases[OF assms] obtain offsets pvs viewed cart ga gb s0 d where
    l: "page_view_loop ivm h cs s0 (time_slots_of d offsets)
          [0..<length (time_slots_of d offsets) - 1] ([], {}, [], ga) = Inr (pvs, viewed, cart, gb)"
    and c: "sr_cart sr = cart"
    by blast
  from page_view_loop_views[OF l] cart_ok_Nil c show ?thesis by simp
qed

lemma loop_body_sessions_ok:
  assumes "\<forall>s \<in> set (sessions st). session_ok s" and "loop_body cfg users cs ivm st = Inr st'"
  shows "\<forall>s \<in> set (sessions st'). session_ok s"
proof -
  from loop_body_attempts[OF assms(2)]
  have "sessions st' = sessions st
      \<or> (\<exists>sr g. generate_session cfg users cs ivm (products st) (random_state st) = Inr (sr, g)
                  \<and> sessions st' = sessions st @ [sr_session sr])"
    by blast
  then show ?thesis using assms(1) generate_session_ok by fastforce
qed

lemma generate_sessions_ok:
  assumes "generate cfg users cs catalog g = Inr st"
  shows "\<forall>s \<in> set (sessions st). session_ok s"
proof (rule generation_loop_invariant[where I = "\<lambda>st. \<forall>s \<in> set (sessions st). session_ok s"])
  show "generation_loop cfg users cs (InventoryManager_init catalog) 0 (initial_state catalog g) = Inr st"
    using assms by (simp add: generate_def)
  show "\<forall>s \<in> set (sessions (initial_state catalog g)). session_ok s"
    by (simp add: initial_state_def)
  show "\<And>s s'. \<forall>x \<in> set (sessions s). session_ok x
          \<Longrightarrow> loop_body cfg users cs (InventoryManager_init catalog) s = Inr s'
          \<Longrightarrow> \<forall>x \<in> set (sessions s'). session_ok x"
    by (rule loop_body_sessions_ok)
qed

subsection \<open>Stock conservation\<close>

lemma cart_ok_Cons:
  assumes "cart_ok ivm h ((pid, e) # rest)"
  shows "pid \<notin> fst ` set rest" and "cart_ok ivm h rest"
    and "0 < quantity e \<longrightarrow> (\<exists>lp. get_product ivm h pid = Some lp \<and> quantity e \<le> current_stock lp)"
proof -
  from assms have d: "distinct (map fst ((pid, e) # rest))"
    and c: "\<And>pid' e'. map_of ((pid, e) # rest) pid' = Some e' \<Longrightarrow> 0 < quantity e' \<Longrightarrow>
            (\<exists>lp. get_product ivm h pid' = Some lp \<and> quantity e' \<le> current_stock lp)"
    unfolding cart_ok_def by blast+
  from d show notin: "pid \<notin> fst ` set rest" by simp
  from c[of pid e]
  show "0 < quantity e \<longrightarrow> (\<exists>lp. get_product ivm h pid = Some lp \<and> quantity e \<le> current_stock lp)"
    by simp
  have "\<exists>lp. get_product ivm h pid' = Some lp \<and> quantity e' \<le> current_stock lp"
    if m: "map_of rest pid' = Some e'" and q: "0 < quantity e'" for pid' e'
  proof -
    have "pid' \<in> fst ` set rest" using m map_of_eq_None_iff[of rest pid'] by auto
    then have "pid' \<noteq> pid" using notin by auto
    then have "map_of ((pid, e) # rest) pid' = Some e'" using m by simp
    then show ?thesis using c q by blast
  qed
  moreover have "distinct (map fst rest)" using d by simp
  ultimately show "cart_ok ivm h rest" unfolding cart_ok_def by blast
qed

lemma cart_ok_store:
  assumes "cart_ok ivm h rest"
      and "\<forall>pid' \<in> fst ` set rest. get_product ivm h1 pid' = get_product ivm h pid'"
  shows "cart_ok ivm h1 rest"
proof -
  have "\<exists>lp. get_product ivm h1 pid' = Some lp \<and> quantity e' \<le> current_stock lp"
    if m: "map_of rest pid' = Some e'" and q: "0 < quantity e'" for pid' e'
  proof -
    have "pid' \<in> fst ` set rest" using m map_of_eq_None_iff[of rest pid'] by auto
    then have "get_product ivm h1 pid' = get_product ivm h pid'" using assms(2) by blast
    moreover have "\<exists>lp. get_product ivm h pid' = Some lp \<and> quantity e' \<le> current_stock lp"
      using assms(1) m q unfolding cart_ok_def by blast
    ultimately show ?thesis by simp
  qed
  moreover have "distinct (map fst rest)" using assms(1) by (simp add: cart_ok_def)
  ultimately show ?thesis unfolding cart_ok_def by blast
qed

lemma update_stock_success:
  assumes "get_product ivm h pid = Some lp" and "qty \<le> current_stock lp"
  shows "fst (update_stock ivm h pid qty)"
  using assms by (auto simp: update_stock_def get_product_def split: option.splits)

lemma update_stock_other:
  assumes ok: "ledger_ok ivm h" and ne: "pid' \<noteq> pid"
  shows "get_product ivm (snd (update_stock ivm h pid qty)) pid' = get_product ivm h pid'"
proof (cases "ivm pid'")
  case None
  then show ?thesis by (simp add: get_product_def)
next
  case (Some j)
  have "current_stock (snd (update_stock ivm h pid qty) ! j) = current_stock (h ! j)"
    using update_stock_stock[OF ok _ Some, of pid qty "fst (update_stock ivm h pid qty)"
            "snd (update_stock ivm h pid qty)"] ne by simp
  moreover have "snd (update_stock ivm h pid qty) ! j = h ! j"
  proof (cases "ivm pid")
    case None
    then show ?thesis by (simp add: update_stock_def)
  next
    case (Some i)
    have "product_id (h ! j) = pid'" "product_id (h ! i) = pid"
      using ok \<open>ivm pid' = Some j\<close> Some by (auto simp: ledger_ok_def)
    then have "i \<noteq> j" using ne by auto
    then show ?thesis using Some by (simp add: update_stock_def)
  qed
  ultimately show ?thesis using Some by (simp add: get_product_def)
qed

text \<open>The reservations of a cart that the stock covers all succeed.\<close>

lemma reserve_cart_valid:
  "ledger_ok ivm h \<Longrightarrow> cart_ok ivm h cart \<Longrightarrow> fst (reserve_cart ivm cart h its)"
proof (induction cart arbitrary: h its)
  case Nil
  then show ?case by simp
next
  case (Cons entry rest)
  obtain pid e where entry: "entry = (pid, e)" by (cases entry)
  note ck = cart_ok_Cons[OF Cons.prems(2)[unfolded entry]]
  show ?case
  proof (cases "0 < quantity e")
    case False
    then show ?thesis using Cons.IH[OF Cons.prems(1) ck(2)] entry by simp
  next
    case True
    obtain r h1 where u: "update_stock ivm h pid (quantity e) = (r, h1)"
      by (cases "update_stock ivm h pid (quantity e)")
    have h1: "h1 = snd (update_stock ivm h pid (quantity e))" using u by simp
    obtain lp where lp: "get_product ivm h pid = Some lp" "quantity e \<le> current_stock lp"
      using ck(3) True by blast
    have r: "r" using update_stock_success[OF lp] u by simp
    have "\<forall>pid' \<in> fst ` set rest. get_product ivm h1 pid' = get_product ivm h pid'"
    proof
      fix pid' assume "pid' \<in> fst ` set rest"
      then have "pid' \<noteq> pid" using ck(1) by auto
      then show "get_product ivm h1 pid' = get_product ivm h pid'"
        unfolding h1 using Cons.prems(1) by (rule update_stock_other[rotated])
    qed
    with ck(2) have c1: "cart_ok ivm h1 rest" by (rule cart_ok_store)
    have l1: "ledger_ok ivm h1" unfolding h1 using Cons.prems(1) by (rule update_stock_ledger_ok)
    show ?thesis using Cons.IH[OF l1 c1] entry True u r by (simp add: Let_def)
  qed
qed

lemma attempt_conserved:
  assumes a: "attempt ivm st st' new e" and d: "e \<or> new = []" and c: "conserved ivm h0 st"
  shows "conserved ivm h0 st'"
proof -
  have r: "reserved ivm (products st) new (products st')" using a by (simp add: attempt_def)
  have ok: "ledger_ok ivm (products st)" using c by (simp add: conserved_def)
  have ok': "ledger_ok ivm (products st')" using r ok by (rule reserved_ledger_ok)
  have diff: "current_stock (products st ! j) - current_stock (products st' ! j) = items_qty new pid"
    if "ivm pid = Some j" for pid j
    using r ok that by (simp add: reserved_def)
  have sold': "sold (transactions st') pid = sold (transactions st) pid + items_qty new pid" for pid
  proof (cases e)
    case True
    then obtain t where "transactions st' = transactions st @ [t]" "priced_from new t"
      using a by (auto simp: attempt_def)
    then show ?thesis by (simp add: priced_from_def)
  next
    case False
    then have "new = []" "transactions st' = transactions st" using d a by (auto simp: attempt_def)
    then show ?thesis by simp
  qed
  have "current_stock (h0 ! j) - current_stock (products st' ! j) = sold (transactions st') pid"
    if j: "ivm pid = Some j" for pid j
  proof -
    have "current_stock (h0 ! j) - current_stock (products st ! j) = sold (transactions st) pid"
      using c j by (simp add: conserved_def)
    then show ?thesis using diff[OF j] sold'[of pid] by simp
  qed
  then show ?thesis using ok' unfolding conserved_def by blast
qed

lemma loop_body_conserved:
  assumes c: "conserved ivm h0 st" and b: "loop_body cfg users cs ivm st = Inr st'"
  shows "conserved ivm h0 st'"
proof -
  from loop_body_attempts[OF b] obtain st1 new1 e1 new2 where
    a1: "attempt ivm st st1 new1 e1" and a2: "attempt ivm st1 st' new2 (new2 \<noteq> [])"
    and s: "new1 = [] \<and> \<not> e1 \<and> sessions st' = sessions st
            \<or> (\<exists>sr g. generate_session cfg users cs ivm (products st) (random_state st) = Inr (sr, g)
                  \<and> sessions st' = sessions st @ [sr_session sr]
                  \<and> (fst (reserve_cart ivm (sr_cart sr) (products st) []) \<longrightarrow> e1 \<or> new1 = []))"
    by blast
  have ok: "ledger_ok ivm (products st)" using c by (simp add: conserved_def)
  have "e1 \<or> new1 = []"
  proof -
    from s show ?thesis
    proof
      assume "new1 = [] \<and> \<not> e1 \<and> sessions st' = sessions st"
      then show ?thesis by simp
    next
      assume "\<exists>sr g. generate_session cfg users cs ivm (products st) (random_state st) = Inr (sr, g)
                  \<and> sessions st' = sessions st @ [sr_session sr]
                  \<and> (fst (reserve_cart ivm (sr_cart sr) (products st) []) \<longrightarrow> e1 \<or> new1 = [])"
      then obtain sr g where
        gs: "generate_session cfg users cs ivm (products st) (random_state st) = Inr (sr, g)"
        and v: "fst (reserve_cart ivm (sr_cart sr) (products st) []) \<longrightarrow> e1 \<or> new1 = []"
        by blast
      have "cart_ok ivm (products st) (sr_cart sr)" using gs by (rule generate_session_cart_ok)
      then have "fst (reserve_cart ivm (sr_cart sr) (products st) [])"
        using ok reserve_cart_valid by blast
      then show ?thesis using v by blast
    qed
  qed
  then have "conserved ivm h0 st1" using a1 c attempt_conserved by blast
  moreover have "new2 \<noteq> [] \<or> new2 = []" by simp
  ultimately show ?thesis using a2 attempt_conserved by blast
qed

lemma generate_conserved:
  assumes "generate cfg users cs catalog g = Inr st"
  shows "conserved (InventoryManager_init catalog) catalog st"
proof (rule generation_loop_invariant[where I = "conserved (InventoryManager_init catalog) catalog"])
  show "generation_loop cfg users cs (InventoryManager_init catalog) 0 (initial_state catalog g) = Inr st"
    using assms by (simp add: generate_def)
  show "conserved (InventoryManager_init catalog) catalog (initial_state catalog g)"
    by (simp add: conserved_def initial_state_def init_ledger_ok)
  show "\<And>s s'. conserved (InventoryManager_init catalog) catalog s
          \<Longrightarrow> loop_body cfg users cs (InventoryManager_init catalog) s = Inr s'
          \<Longrightarrow> conserved (InventoryManager_init catalog) catalog s'"
    by (rule loop_body_conserved)
qed

subsection \<open>A run raises nothing\<close>

lemma ledger_fold_key:
  "pid \<in> product_id ` set ps \<or> m0 pid \<noteq> None \<Longrightarrow> ledger_fold n ps m0 pid \<noteq> None"
proof (induction ps arbitrary: n m0)
  case Nil
  then show ?case by (simp add: ledger_fold_Nil)
next
  case (Cons p ps)
  have "pid \<in> product_id ` set ps \<or> (m0(product_id p \<mapsto> n)) pid \<noteq> None"
    using Cons.prems by auto
  then have "ledger_fold (Suc n) ps (m0(product_id p \<mapsto> n)) pid \<noteq> None"
    by (rule Cons.IH[where ?m0.0 = "m0(product_id p \<mapsto> n)" and n = "Suc n"])
  then show ?case unfolding ledger_fold_Cons .
qed

lemma init_ledger_complete: "ledger_complete (InventoryManager_init ps) ps"
proof -
  have "InventoryManager_init ps = ledger_fold 0 ps Map.empty"
    by (simp add: InventoryManager_init_def ledger_fold_def)
  then show ?thesis
    unfolding ledger_complete_def using ledger_fold_key[of _ ps Map.empty 0] by simp
qed

lemma reserved_ledger_complete:
  "reserved ivm h new h' \<Longrightarrow> ledger_complete ivm h \<Longrightarrow> ledger_complete ivm h'"
  by (simp add: reserved_def ledger_complete_def)

lemma choice_returns: "xs \<noteq> [] \<Longrightarrow> \<exists>x g'. choice xs g = Inr (x, g') \<and> x \<in> set xs"
  by (simp add: choice_def randbelow_def)

lemma determine_page_type_returns: "\<exists>pt g'. determine_page_type i pvs g = Inr (pt, g')"
proof (cases "i = 0")
  case True
  then show ?thesis
    using choice_returns[of "[''home'', ''search'', ''category_listing'']" g]
    by (auto simp: determine_page_type_def)
next
  case False
  then show ?thesis
    by (simp add: determine_page_type_def Let_def)
qed

lemma sellable_product_returns:
  "h \<noteq> [] \<Longrightarrow> \<exists>r g'. sellable_product n h g = Inr (r, g') \<and> (\<forall>i. r = Some i \<longrightarrow> i < length h)"
proof (induction n arbitrary: g)
  case 0
  then show ?case by simp
next
  case (Suc n)
  have "[0..<length h] \<noteq> []" using Suc.prems by simp
  from choice_returns[OF this, of g] obtain i g1 where
    c: "choice [0..<length h] g = Inr (i, g1)" and i: "i < length h" by auto
  show ?case
  proof (cases "is_active (h ! i) \<and> current_stock (h ! i) > 0")
    case True
    then show ?thesis using c i by simp
  next
    case False
    then have "sellable_product (Suc n) h g = sellable_product n h g1" using c by auto
    then show ?thesis using Suc.IH[OF Suc.prems, of g1] by simp
  qed
qed

lemma get_page_content_returns:
  assumes "h \<noteq> []" and "cs \<noteq> []"
  shows "\<exists>prod cat g'. get_page_content pt h cs g = Inr ((prod, cat), g')
           \<and> (\<forall>i. prod = Some i \<longrightarrow> i < length h)"
proof (cases "pt = ''product_detail''")
  case True
  from sellable_product_returns[OF assms(1), of 10 g] obtain r g1 where
    s: "sellable_product 10 h g = Inr (r, g1)" and r: "\<forall>i. r = Some i \<longrightarrow> i < length h" by blast
  show ?thesis
  proof (cases r)
    case (Some i)
    then show ?thesis using True s r by (simp add: get_page_content_def)
  next
    case None
    have "[0..<length h] \<noteq> []" using assms(1) by simp
    from choice_returns[OF this, of g1] obtain i g2 where
      "choice [0..<length h] g1 = Inr (i, g2)" "i < length h" by auto
    then show ?thesis using True s None by (simp add: get_page_content_def)
  qed
next
  case False
  show ?thesis
  proof (cases "pt = ''category_listing''")
    case True
    from choice_returns[OF assms(2), of g] obtain c g1 where "choice cs g = Inr (c, g1)" by blast
    then show ?thesis using True False by (simp add: get_page_content_def)
  next
    case f: False
    then show ?thesis using False by (simp add: get_page_content_def)
  qed
qed

lemma add_to_cart_returns:
  fixes cart :: cart and g :: rng
  assumes "ledger_ok ivm h" "ledger_complete ivm h" "p < length h"
  shows "\<exists>cart' g'. add_to_cart ivm h p cart g = Inr (cart', g')"
proof -
  obtain j where "ivm (product_id (h ! p)) = Some j"
    using assms(2,3) by (auto simp: ledger_complete_def)
  then have "get_product ivm h (product_id (h ! p)) = Some (h ! j)" by (simp add: get_product_def)
  from add_to_cart_cases[OF this, of cart g] show ?thesis by blast
qed

lemma page_view_step_returns:
  assumes "ledger_ok ivm h" "ledger_complete ivm h" "h \<noteq> []" "cs \<noteq> []"
  shows "\<exists>vs'. page_view_step ivm h cs s0 ts i vs = Inr vs'"
proof -
  obtain pvs viewed cart g where vs: "vs = (pvs, viewed, cart, g)" by (metis prod_cases4)
  obtain pt g1 where d: "determine_page_type i pvs g = Inr (pt, g1)"
    using determine_page_type_returns by blast
  from get_page_content_returns[OF assms(3,4), of pt g1] obtain prod cat g2 where
    c: "get_page_content pt h cs g1 = Inr ((prod, cat), g2)"
    and r: "\<forall>i. prod = Some i \<longrightarrow> i < length h" by blast
  have "\<exists>x. (case prod of
               Some p \<Rightarrow>
                 if pt = ''product_detail'' then
                   (case random_unit g2 of (u, g3) \<Rightarrow>
                      if u < 3 / 10
                      then bindE (add_to_cart ivm h p cart g3) (\<lambda>(cart', g4).
                             Inr (insert (product_id (h ! p)) viewed, cart', g4))
                      else Inr (insert (product_id (h ! p)) viewed, cart, g3))
                 else Inr (viewed, cart, g2)
             | None \<Rightarrow> Inr (viewed, cart, g2)) = Inr x"
  proof (cases prod)
    case None
    then show ?thesis by simp
  next
    case (Some p)
    then have p: "p < length h" using r by simp
    obtain u g3 where u: "random_unit g2 = (u, g3)" by (cases "random_unit g2")
    from add_to_cart_returns[OF assms(1,2) p, of cart g3] obtain cart' g4 where
      "add_to_cart ivm h p cart g3 = Inr (cart', g4)" by blast
    then show ?thesis using Some u by simp
  qed
  then obtain x where "(case prod of
               Some p \<Rightarrow>
                 if pt = ''product_detail'' then
                   (case random_unit g2 of (u, g3) \<Rightarrow>
                      if u < 3 / 10
                      then bindE (add_to_cart ivm h p cart g3) (\<lambda>(cart', g4).
                             Inr (insert (product_id (h ! p)) viewed, cart', g4))
                      else Inr (insert (product_id (h ! p)) viewed, cart, g3))
                 else Inr (viewed, cart, g2)
             | None \<Rightarrow> Inr (viewed, cart, g2)) = Inr x" by blast
  moreover obtain v' c' g' where "x = (v', c', g')" by (metis prod_cases3)
  ultimately show ?thesis
    unfolding vs page_view_step_def Let_def
    by (simp add: d c)
qed

lemma page_view_loop_returns:
  assumes "ledger_ok ivm h" "ledger_complete ivm h" "h \<noteq> []" "cs \<noteq> []"
  shows "\<exists>vs'. page_view_loop ivm h cs s0 ts is vs = Inr vs'"
proof (induction "is" arbitrary: vs)
  case Nil
  show ?case by (rule exI[of _ vs]) simp
next
  case (Cons i "is")
  from page_view_step_returns[OF assms, of s0 ts i vs] obtain vs1 where
    "page_view_step ivm h cs s0 ts i vs = Inr vs1" by blast
  then show ?case using Cons.IH[of vs1] by simp
qed

lemma session_record_returns:
  "\<exists>s g'. session_record sid usr s0 d viewed pvs cart converted g = Inr (s, g')"
proof -
  obtain ip g1 where ip: "ipv4 g = (ip, g1)" by (cases "ipv4 g")
  obtain dev g2 where dev: "choice [''mobile'', ''desktop'', ''tablet''] g1 = Inr (dev, g2)"
    using choice_returns[of "[''mobile'', ''desktop'', ''tablet'']" g1] by auto
  obtain os g3 where os: "choice [''iOS'', ''Android'', ''Windows'', ''macOS''] g2 = Inr (os, g3)"
    using choice_returns[of "[''iOS'', ''Android'', ''Windows'', ''macOS'']" g2] by auto
  obtain br g4 where br: "choice [''Chrome'', ''Safari'', ''Firefox'', ''Edge''] g3 = Inr (br, g4)"
    using choice_returns[of "[''Chrome'', ''Safari'', ''Firefox'', ''Edge'']" g3] by auto
  obtain ref g5 where
    ref: "choice [''direct'', ''email'', ''social'', ''search_engine'', ''affiliate''] g4 = Inr (ref, g5)"
    using choice_returns[of "[''direct'', ''email'', ''social'', ''search_engine'', ''affiliate'']" g4]
    by auto
  show ?thesis unfolding session_record_def by (simp add: ip dev os br ref)
qed

lemma generate_session_returns:
  assumes "ledger_ok ivm h" "ledger_complete ivm h" "h \<noteq> []" "cs \<noteq> []" "users \<noteq> []"
  shows "\<exists>sr g'. generate_session cfg users cs ivm h g = Inr (sr, g')"
proof -
  obtain usr g1 where c: "choice users g = Inr (usr, g1)"
    using choice_returns[OF assms(5), of g] by blast
  obtain sid g2 where sid: "uuid4 g1 = (sid, g2)" by (cases "uuid4 g1")
  obtain s0 g3 where s0: "date_time_between (TIMESPAN_DAYS cfg) g2 = (s0, g3)"
    by (cases "date_time_between (TIMESPAN_DAYS cfg) g2")
  obtain d g4 where d: "randint 30 3600 g3 = (d, g4)" by (cases "randint 30 3600 g3")
  obtain n g5 where n: "randint 4 12 g4 = (n, g5)" by (cases "randint 4 12 g4")
  obtain offsets g6 where o: "draw_offsets (nat n) (max 2 (d - 1)) g5 = (offsets, g6)"
    by (cases "draw_offsets (nat n) (max 2 (d - 1)) g5")
  define ts where "ts = time_slots_of d offsets"
  from page_view_loop_returns[OF assms(1-4), of s0 ts "[0..<length ts - 1]" "([], {}, [], g6)"]
  obtain pvs viewed cart g7 where
    l: "page_view_loop ivm h cs s0 ts [0..<length ts - 1] ([], {}, [], g6) = Inr (pvs, viewed, cart, g7)"
    by (metis prod_cases4)
  obtain converted g8 where cv: "conversion_logic cart pvs g7 = (converted, g8)"
    by (cases "conversion_logic cart pvs g7")
  obtain s g9 where
    rec: "session_record sid usr s0 d viewed pvs cart converted g8 = Inr (s, g9)"
    using session_record_returns by blast
  define rest where "rest = (\<lambda>(pvs, viewed, cart, g7).
      (case conversion_logic cart pvs g7 of (converted, g8) \<Rightarrow>
      bindE (session_record sid usr s0 d viewed pvs cart converted g8)
        (\<lambda>(s, g9).
      Inr (\<lparr>sr_session = s, sr_user = usr, sr_cart = cart, sr_converted = converted\<rparr>, g9))))"
  have "generate_session cfg users cs ivm h g =
      bindE (page_view_loop ivm h cs s0 ts [0..<length ts - 1] ([], {}, [], g6)) rest"
    unfolding generate_session_def rest_def ts_def Let_def
    by (simp add: c sid s0 d n o)
  also have "\<dots> = rest (pvs, viewed, cart, g7)" by (simp only: l bindE_Inr)
  also have "\<dots> = Inr (\<lparr>sr_session = s, sr_user = usr, sr_cart = cart, sr_converted = converted\<rparr>, g9)"
    by (simp add: rest_def cv rec)
  finally show ?thesis by blast
qed

lemma price_items_returns: "\<exists>r g'. price_items its g = Inr (r, g')"
proof -
  obtain u g1 where u: "random_unit g = (u, g1)" by (cases "random_unit g")
  have "discount_choices \<noteq> []" by (simp add: discount_choices_def)
  from choice_returns[OF this, of g1] obtain dc g2 where "choice discount_choices g1 = Inr (dc, g2)"
    by blast
  then show ?thesis unfolding price_items_def Let_def by (simp add: u)
qed

lemma linked_transaction_returns: "\<exists>st'. linked_transaction ivm sr st = Inr st'"
proof -
  obtain valid its h' where r: "reserve_cart ivm (sr_cart sr) (products st) [] = (valid, its, h')"
    by (cases "reserve_cart ivm (sr_cart sr) (products st) []") auto
  obtain sub disc tot g1 where p: "price_items its (random_state st) = Inr ((sub, disc, tot), g1)"
    using price_items_returns by (metis prod_cases3)
  obtain tid g2 where t: "uuid4 g1 = (tid, g2)" by (cases "uuid4 g1")
  obtain pm g3 where
    "choice [''credit_card'', ''paypal'', ''apple_pay'', ''bank_transfer''] g2 = Inr (pm, g3)"
    using choice_returns[of "[''credit_card'', ''paypal'', ''apple_pay'', ''bank_transfer'']" g2]
    by auto
  then show ?thesis unfolding linked_transaction_def by (simp add: r p t)
qed

lemma standalone_block_returns:
  assumes "users \<noteq> []"
  shows "\<exists>st'. standalone_block cfg users ivm st = Inr st'"
proof -
  obtain u g1 where u: "random_unit (random_state st) = (u, g1)"
    by (cases "random_unit (random_state st)")
  obtain usr g2 where usr: "choice users g1 = Inr (usr, g2)"
    using choice_returns[OF assms, of g1] by blast
  obtain ps g3 where ps: "sample [0..<length (products st)] (min 3 (length (products st))) g2 = (ps, g3)"
    by (cases "sample [0..<length (products st)] (min 3 (length (products st))) g2")
  obtain its h' g4 where r: "reserve_products ivm ps (products st) [] g3 = (its, h', g4)"
    by (cases "reserve_products ivm ps (products st) [] g3") auto
  obtain sub disc tot g5 where p: "price_items its g4 = Inr ((sub, disc, tot), g5)"
    using price_items_returns by (metis prod_cases3)
  obtain tid g6 where t: "uuid4 g5 = (tid, g6)" by (cases "uuid4 g5")
  obtain tm g7 where tm: "date_time_between (TIMESPAN_DAYS cfg) g6 = (tm, g7)"
    by (cases "date_time_between (TIMESPAN_DAYS cfg) g6")
  obtain pm g8 where
    pm: "choice [''credit_card'', ''paypal'', ''bank_transfer'', ''gift_card''] g7 = Inr (pm, g8)"
    using choice_returns[of "[''credit_card'', ''paypal'', ''bank_transfer'', ''gift_card'']" g7]
    by auto
  obtain stat g9 where
    stat: "choice [''completed'', ''processing'', ''shipped'', ''delivered''] g8 = Inr (stat, g9)"
    using choice_returns[of "[''completed'', ''processing'', ''shipped'', ''delivered'']" g8]
    by auto
  show ?thesis unfolding standalone_block_def by (simp add: u usr ps r p t tm pm stat)
qed

lemma attempt_store_ready:
  assumes "attempt ivm st st' new e" and "store_ready ivm st"
  shows "store_ready ivm st'"
proof -
  have r: "reserved ivm (products st) new (products st')" using assms(1) by (simp add: attempt_def)
  then have "length (products st') = length (products st)" by (simp add: reserved_def)
  then have "products st' \<noteq> []" using assms(2) by (auto simp: store_ready_def)
  then show ?thesis
    using r assms(2) reserved_ledger_ok reserved_ledger_complete
    unfolding store_ready_def by blast
qed

lemma session_block_returns:
  assumes "store_ready ivm st" "cs \<noteq> []" "users \<noteq> []"
  shows "\<exists>st'. session_block cfg users cs ivm st = Inr st'"
proof -
  have "ledger_ok ivm (products st)" "ledger_complete ivm (products st)" "products st \<noteq> []"
    using assms(1) by (simp_all add: store_ready_def)
  from generate_session_returns[OF this assms(2,3), of cfg "random_state st"]
  obtain sr g where gs: "generate_session cfg users cs ivm (products st) (random_state st) = Inr (sr, g)"
    by blast
  define st1 where "st1 = st\<lparr>sessions := sessions st @ [sr_session sr],
                     session_counter := session_counter st + 1, random_state := g\<rparr>"
  obtain st2 where "linked_transaction ivm sr st1 = Inr st2"
    using linked_transaction_returns by blast
  then show ?thesis
    unfolding session_block_def by (simp add: gs Let_def st1_def)
qed

lemma loop_body_returns:
  assumes "store_ready ivm st" "cs \<noteq> []" "users \<noteq> []"
  shows "\<exists>st'. loop_body cfg users cs ivm st = Inr st' \<and> store_ready ivm st'"
proof -
  have "\<exists>st1. (if session_counter st < NUM_SESSIONS cfg then session_block cfg users cs ivm st
                else Inr st) = Inr st1"
  proof (cases "session_counter st < NUM_SESSIONS cfg")
    case True
    then show ?thesis using session_block_returns[OF assms, of cfg] by simp
  next
    case False
    then show ?thesis by simp
  qed
  then obtain st1 where
    b: "(if session_counter st < NUM_SESSIONS cfg then session_block cfg users cs ivm st else Inr st)
          = Inr st1"
    by blast
  obtain st' where s: "standalone_block cfg users ivm st1 = Inr st'"
    using standalone_block_returns[OF assms(3)] by blast
  have l: "loop_body cfg users cs ivm st = Inr st'"
    unfolding loop_body_def by (simp only: b bindE_Inr s)
  from loop_body_attempts[OF l] obtain s1 new1 e1 new2 where
    "attempt ivm st s1 new1 e1" "attempt ivm s1 st' new2 (new2 \<noteq> [])" by blast
  then have "store_ready ivm st'" using assms(1) attempt_store_ready by blast
  then show ?thesis using l by blast
qed

text \<open>
  With at least one user, one category and one product, the generation loop raises
  nothing: every run ends with a final state.
\<close>

lemma generation_loop_returns:
  assumes "store_ready ivm st" "cs \<noteq> []" "users \<noteq> []"
  shows "\<exists>st'. generation_loop cfg users cs ivm it st = Inr st'"
  using assms
proof (induction cfg users cs ivm it st rule: generation_loop.induct)
  case (1 cfg users cs ivm it st)
  show ?case
  proof (cases "loop_condition cfg it st")
    case False
    then show ?thesis by (simp add: generation_loop_stop)
  next
    case True
    from loop_body_returns[OF "1.prems", of cfg] obtain s1 where
      b: "loop_body cfg users cs ivm st = Inr s1" and r: "store_ready ivm s1" by blast
    have c: "(session_counter st < NUM_SESSIONS cfg \<or> transaction_counter st < NUM_TRANSACTIONS cfg)
         \<and> it < MAX_ITERATIONS cfg" using True by (simp add: loop_condition_def)
    from "1.IH"[OF c b r "1.prems"(2,3)] obtain st' where
      "generation_loop cfg users cs ivm (it + 1) s1 = Inr st'" by blast
    then show ?thesis using True b by (simp add: generation_loop_step)
  qed
qed

lemma generate_returns:
  assumes "catalog \<noteq> []" "cs \<noteq> []" "users \<noteq> []"
  shows "\<exists>st. generate cfg users cs catalog g = Inr st"
proof -
  have "store_ready (InventoryManager_init catalog) (initial_state catalog g)"
    using assms(1) init_ledger_ok init_ledger_complete
    by (simp add: store_ready_def initial_state_def)
  from generation_loop_returns[OF this assms(2,3)] show ?thesis by (simp add: generate_def)
qed

subsection \<open>Evaluation\<close>

lemma draw_offsets_unfold:
  "draw_offsets n hi g =
     (if n = 0 then ([], g)
      else (case randint 1 hi g of (x, g') \<Rightarrow>
              (case draw_offsets (n - 1) hi g' of (xs, g'') \<Rightarrow> (x # xs, g''))))"
  by (cases n) simp_all

lemma sellable_product_unfold:
  "sellable_product n h g =
     (if n = 0 then Inr (None, g)
      else bindE (choice [0..<length h] g) (\<lambda>(i, g').
             if is_active (h ! i) \<and> current_stock (h ! i) > 0 then Inr (Some i, g')
             else sellable_product (n - 1) h g'))"
  by (cases n) (simp_all cong: if_cong)

lemma sample_unfold:
  "sample pool k g =
     (if k = 0 then ([], g)
      else (case randbelow (length pool) g of (j, g') \<Rightarrow>
              (case sample (butlast (pool[j := last pool])) (k - 1) g' of (rest, g'') \<Rightarrow>
                 (pool ! j # rest, g''))))"
  by (cases k) simp_all

lemma floor_rat_numeral:
  "\<lfloor>numeral a / numeral b :: rat\<rfloor> = numeral a div numeral b"
  using floor_divide_of_int_eq[of "numeral a" "numeral b", where ?'a = rat] by simp

lemma ceiling_rat_numeral:
  "\<lceil>numeral a / numeral b :: rat\<rceil> = - (- numeral a div numeral b)"
  using floor_divide_of_int_eq[of "- numeral a" "numeral b", where ?'a = rat]
  by (simp add: ceiling_def)

lemmas eval_float = float64_def exponent_def bit_length.simps round_half_even_def fadd_def fsub_def
  fmul_def float_of_int_def round2_def float_sum_def floor_rat_numeral ceiling_rat_numeral

lemmas eval_random = randbelow_def choice_def randint_def random_unit_def choices_def uuid4_def
  ipv4_def date_time_between_def

lemmas eval_session = determine_page_type_def category_of_def get_page_content_def
  sellable_product_unfold add_to_cart_def get_product_def page_view_step_def draw_offsets_unfold
  time_slots_of_def conversion_logic_def session_record_def generate_session_def
  InventoryManager_init_def Let_def upt_rec

lemmas eval_loop = generation_loop.simps loop_body_def session_block_def linked_transaction_def
  standalone_block_def price_items_def discount_choices_def update_stock_def MAX_ITERATIONS_def
  initial_state_def generate_def sample_unfold

lemma example_run:
  "generate example_config example_users example_categories example_catalog example_draws
     = Inr example_final"
  by (simp add: eval_random eval_session eval_loop example_config_def example_users_def
        example_categories_def example_catalog_def example_draws_def example_final_def
        example_session_def example_transaction_def)
     (simp add: eval_float)

lemma standalone_first:
  "standalone_block standalone_config example_users (InventoryManager_init standalone_catalog)
     (initial_state standalone_catalog standalone_draws) = Inr standalone_skipped"
  by (simp add: eval_random eval_session eval_loop standalone_config_def example_users_def
        standalone_catalog_def standalone_draws_def standalone_second_draws_def
        standalone_skipped_def)

lemma standalone_run:
  "generate standalone_config example_users example_categories standalone_catalog standalone_draws
     = Inr standalone_final"
  by (simp add: eval_random eval_session eval_loop standalone_config_def example_users_def
        standalone_catalog_def standalone_draws_def standalone_second_draws_def
        standalone_final_def standalone_transaction_def)
     (simp add: eval_float)

section \<open>The claims\<close>

text \<open>
  C1 (stock conservation).  After any run of the generation loop that ends, for every
  product of the ledger the initial stock minus the final stock is the quantity of that
  product over the items of all emitted transactions, linked and standalone; with distinct
  product ids that is every product of the catalog.  No reservation is lost to an
  abandoned linked transaction, because none is abandoned: on the cart of a session just
  generated over the same store, every reservation succeeds.  (With at least one user,
  one category and one product every run ends: lemma \<open>generate_returns\<close>.)
\<close>

theorem stock_conservation:
  assumes "generate cfg users cs catalog g = Inr st"
  shows "(\<forall>pid j. InventoryManager_init catalog pid = Some j \<longrightarrow>
            j < length catalog \<and> product_id (catalog ! j) = pid
          \<and> current_stock (catalog ! j) - current_stock (products st ! j)
              = sold (transactions st) pid)
       \<and> (distinct (map product_id catalog) \<longrightarrow>
            (\<forall>i < length catalog.
               current_stock (catalog ! i) - current_stock (products st ! i)
                 = sold (transactions st) (product_id (catalog ! i))))
       \<and> (\<forall>h g0 sr g1.
            ledger_ok (InventoryManager_init catalog) h
          \<and> generate_session cfg users cs (InventoryManager_init catalog) h g0 = Inr (sr, g1)
          \<longrightarrow> fst (reserve_cart (InventoryManager_init catalog) (sr_cart sr) h []))"
proof -
  let ?ivm = "InventoryManager_init catalog"
  have c: "conserved ?ivm catalog st" using assms by (rule generate_conserved)
  have a: "j < length catalog \<and> product_id (catalog ! j) = pid
          \<and> current_stock (catalog ! j) - current_stock (products st ! j) = sold (transactions st) pid"
    if "?ivm pid = Some j" for pid j
    using that c init_ledger_ok[of catalog] by (simp add: conserved_def ledger_ok_def)
  have b: "current_stock (catalog ! i) - current_stock (products st ! i)
                 = sold (transactions st) (product_id (catalog ! i))"
    if "distinct (map product_id catalog)" "i < length catalog" for i
    using a[OF init_distinct[OF that]] by simp
  have d: "fst (reserve_cart ?ivm (sr_cart sr) h [])"
    if "ledger_ok ?ivm h" "generate_session cfg users cs ?ivm h g0 = Inr (sr, g1)" for h g0 sr g1
    using reserve_cart_valid[OF that(1) generate_session_cart_ok[OF that(2)]] .
  from a b d show ?thesis by blast
qed

theorem stock_conservation_witness:
  "generate example_config example_users example_categories example_catalog example_draws
     = Inr example_final
   \<and> InventoryManager_init example_catalog ''prod_00000'' = Some 0
   \<and> current_stock (example_catalog ! 0) = 10
   \<and> current_stock (products example_final ! 0) = 7
   \<and> sold (transactions example_final) ''prod_00000'' = 3"
proof -
  have i: "InventoryManager_init example_catalog ''prod_00000'' = Some 0"
    by (simp add: InventoryManager_init_def example_catalog_def)
  have s: "current_stock (example_catalog ! 0) = 10" "current_stock (products example_final ! 0) = 7"
    by (simp_all add: example_catalog_def example_final_def)
  from stock_conservation[OF example_run] i
  have "current_stock (example_catalog ! 0) - current_stock (products example_final ! 0)
          = sold (transactions example_final) ''prod_00000''"
    by blast
  then show ?thesis using example_run i s by simp
qed

text \<open>
  C2 (non-negativity).  From a store in which no stock is negative, \<open>update_stock\<close> leaves
  no stock negative, whatever the product and the quantity asked; so every store that a
  sequence of calls of the manager passes through has no negative stock (the lock makes
  concurrent calls such a sequence), and neither has the store at the end of a run of
  the generation loop.  The claim's condition that a reservation asks for at least 1 is
  not needed.
\<close>

theorem stock_never_negative:
  assumes "stock_nonneg h"
  shows "stock_nonneg (snd (update_stock ivm h pid qty))
       \<and> (\<forall>h' \<in> set (ledger_trace ivm h calls). stock_nonneg h')
       \<and> (\<forall>cfg users cs g st. generate cfg users cs h g = Inr st \<longrightarrow> stock_nonneg (products st))"
  using assms update_stock_nonneg ledger_trace_nonneg generate_nonneg by blast

theorem stock_never_negative_witness:
  "stock_nonneg example_catalog
   \<and> map (map current_stock)
        (ledger_trace (InventoryManager_init example_catalog) example_catalog
           [Reserve ''prod_00001'' 2, Reserve ''prod_00001'' 1, Peek ''prod_00001''])
       = [[10, 0], [10, 0], [10, 0]]
   \<and> stock_nonneg (products example_final)"
proof -
  have n: "stock_nonneg example_catalog"
    by (simp add: stock_nonneg_def example_catalog_def)
  have t: "map (map current_stock)
        (ledger_trace (InventoryManager_init example_catalog) example_catalog
           [Reserve ''prod_00001'' 2, Reserve ''prod_00001'' 1, Peek ''prod_00001''])
       = [[10, 0], [10, 0], [10, 0]]"
    by (simp add: update_stock_def InventoryManager_init_def example_catalog_def Let_def)
  from stock_never_negative[OF n] example_run have "stock_nonneg (products example_final)"
    by blast
  then show ?thesis using n t by simp
qed

text \<open>
  C3 (reserve contract).  On a manager whose dictionary points at its own products,
  \<open>update_stock\<close> returns true exactly when the product is in the ledger with
  \<open>current_stock \<ge> quantity\<close>; then the product's stock is lower by exactly the quantity,
  every other ledger product and every other object of the store is as before; when it
  returns false the store is unchanged.  \<open>update_stock\<close> has no error result: the
  method has no raise, and its one subscript reads a field every product has.
\<close>

theorem reserve_contract:
  assumes "ledger_ok ivm h" and "update_stock ivm h pid qty = (r, h')"
  shows "(r \<longleftrightarrow> (\<exists>p. get_product ivm h pid = Some p \<and> qty \<le> current_stock p))
       \<and> (r \<longrightarrow> (\<exists>p. get_product ivm h pid = Some p
                 \<and> get_product ivm h' pid = Some (p\<lparr>current_stock := current_stock p - qty\<rparr>))
               \<and> (\<forall>pid'. pid' \<noteq> pid \<longrightarrow> get_product ivm h' pid' = get_product ivm h pid')
               \<and> length h' = length h
               \<and> (\<forall>j. ivm pid \<noteq> Some j \<longrightarrow> h' ! j = h ! j))
       \<and> (\<not> r \<longrightarrow> h' = h)"
  using assms by (rule reserve_contract_aux)

theorem reserve_contract_witness:
  "ledger_ok (InventoryManager_init example_catalog) example_catalog
   \<and> update_stock (InventoryManager_init example_catalog) example_catalog ''prod_00001'' 2
       = (True, example_catalog[1 := (example_catalog ! 1)\<lparr>current_stock := 0\<rparr>])
   \<and> get_product (InventoryManager_init example_catalog)
        (example_catalog[1 := (example_catalog ! 1)\<lparr>current_stock := 0\<rparr>]) ''prod_00000''
       = get_product (InventoryManager_init example_catalog) example_catalog ''prod_00000''
   \<and> update_stock (InventoryManager_init example_catalog) example_catalog ''prod_00001'' 3
       = (False, example_catalog)"
proof -
  have ok: "ledger_ok (InventoryManager_init example_catalog) example_catalog"
    by (rule init_ledger_ok)
  have u: "update_stock (InventoryManager_init example_catalog) example_catalog ''prod_00001'' 2
       = (True, example_catalog[1 := (example_catalog ! 1)\<lparr>current_stock := 0\<rparr>])"
    by (simp add: update_stock_def InventoryManager_init_def example_catalog_def)
  have f: "update_stock (InventoryManager_init example_catalog) example_catalog ''prod_00001'' 3
       = (False, example_catalog)"
    by (simp add: update_stock_def InventoryManager_init_def example_catalog_def)
  from reserve_contract[OF ok u] reserve_contract[OF ok f] ok u f show ?thesis by simp
qed

text \<open>
  C4 (conversion precondition) at a run the claim fails on.  The only product is sold out
  by the first session's transaction; the second session views it, the add-to-cart block
  makes its entry with quantity 0 and adds nothing, and the session reaches the checkout.
  Its cart dictionary is not empty, so the session converts; the emitted record says
  \<open>converted\<close> and its filtered \<open>cart_contents\<close> is empty.
\<close>

theorem converted_with_empty_cart:
  "(case generate sold_out_config example_users example_categories sold_out_catalog sold_out_draws of
      Inl e \<Rightarrow> False
    | Inr st \<Rightarrow>
        map (\<lambda>s. (conversion_status s, cart_contents s)) (sessions st)
          = [(''converted'', [(''prod_00000'', \<lparr>quantity = 10, price = float64 (999 / 100)\<rparr>)]),
             (''converted'', [])]
      \<and> map (\<lambda>t. (t_session_id t, map ti_quantity (items t))) (transactions st) = [(Some 1, [10])]
      \<and> map current_stock (products st) = [0])"
  by (simp add: eval_random eval_session eval_loop sold_out_config_def example_users_def
        example_categories_def sold_out_catalog_def sold_out_draws_def)

text \<open>
  C5 (session monotonicity).  In every session emitted by a run, the timestamps of the
  page views do not decrease along the list, no view duration is negative, and the view
  durations add up to the session's \<open>duration_seconds\<close>.
\<close>

theorem session_monotonicity:
  assumes "generate cfg users cs catalog g = Inr st" and "s \<in> set (sessions st)"
  shows "sorted (map timestamp (page_views s))
       \<and> (\<forall>pv \<in> set (page_views s). 0 \<le> view_duration pv)
       \<and> sum_list (map view_duration (page_views s)) = duration_seconds s"
proof -
  have ok: "session_ok s" using generate_sessions_ok[OF assms(1)] assms(2) by blast
  then have "sorted_wrt (<) (map timestamp (page_views s))" by (simp add: session_ok_def)
  then have "sorted (map timestamp (page_views s))" by (simp add: strict_sorted_iff)
  moreover have "\<forall>pv \<in> set (page_views s). 0 \<le> view_duration pv"
    using ok by (force simp: session_ok_def)
  ultimately show ?thesis using ok by (simp add: session_ok_def)
qed

theorem session_monotonicity_witness:
  "generate example_config example_users example_categories example_catalog example_draws
     = Inr example_final
   \<and> example_session \<in> set (sessions example_final)
   \<and> map timestamp (page_views example_session) = [0, 1, 2, 3]
   \<and> map view_duration (page_views example_session) = [1, 1, 1, 27]
   \<and> sum_list (map view_duration (page_views example_session)) = duration_seconds example_session"
proof -
  have m: "example_session \<in> set (sessions example_final)" by (simp add: example_final_def)
  have v: "map timestamp (page_views example_session) = [0, 1, 2, 3]"
    "map view_duration (page_views example_session) = [1, 1, 1, 27]"
    by (simp_all add: example_session_def)
  from session_monotonicity[OF example_run m] example_run m v show ?thesis by simp
qed

text \<open>
  C6 (cart-add cap).  For a product of the ledger, the add-to-cart block returns a cart
  (it raises nothing).  With \<open>stock_left\<close> the ledger's stock minus the quantity already in
  the cart for the product (0 when it has no entry), the quantity added is between 1 and
  \<open>min 3 stock_left\<close> when that is positive, so never above \<open>stock_left\<close>, and the entry's
  quantity is as before otherwise; the other entries of the cart are not touched.
\<close>

theorem cart_add_cap:
  fixes cart :: cart and g :: rng
  assumes "get_product ivm h (product_id (h ! p)) = Some lp"
  shows "\<exists>cart' g'. add_to_cart ivm h p cart g = Inr (cart', g')
           \<and> (let pid = product_id (h ! p);
                   stock_left = current_stock lp - cart_qty cart pid;
                   added = cart_qty cart' pid - cart_qty cart pid
               in (if 0 < min 3 stock_left
                   then 1 \<le> added \<and> added \<le> min 3 stock_left \<and> added \<le> stock_left
                   else added = 0)
                \<and> (\<forall>pid'. pid' \<noteq> pid \<longrightarrow> map_of cart' pid' = map_of cart pid'))"
proof -
  define pid where "pid = product_id (h ! p)"
  define stock_left where "stock_left = current_stock lp - cart_qty cart pid"
  from add_to_cart_cases[OF assms, of cart g]
  obtain cart' g' where r: "add_to_cart ivm h p cart g = Inr (cart', g')"
    and c: "if 0 < min 3 stock_left
         then 1 \<le> cart_qty cart' pid - cart_qty cart pid
            \<and> cart_qty cart' pid - cart_qty cart pid \<le> min 3 stock_left
            \<and> fst (randint 1 (min 3 stock_left) g) = cart_qty cart' pid - cart_qty cart pid
            \<and> g' = snd (randint 1 (min 3 stock_left) g)
         else cart_qty cart' pid = cart_qty cart pid \<and> g' = g"
    and o: "\<forall>pid'. pid' \<noteq> pid \<longrightarrow> map_of cart' pid' = map_of cart pid'"
    unfolding pid_def stock_left_def by blast
  have "if 0 < min 3 stock_left
        then 1 \<le> cart_qty cart' pid - cart_qty cart pid
           \<and> cart_qty cart' pid - cart_qty cart pid \<le> min 3 stock_left
           \<and> cart_qty cart' pid - cart_qty cart pid \<le> stock_left
        else cart_qty cart' pid - cart_qty cart pid = 0"
  proof (cases "0 < min 3 stock_left")
    case True
    with c have "1 \<le> cart_qty cart' pid - cart_qty cart pid"
      "cart_qty cart' pid - cart_qty cart pid \<le> min 3 stock_left" by simp_all
    then show ?thesis using True by simp
  next
    case False
    with c show ?thesis by simp
  qed
  with r o have "add_to_cart ivm h p cart g = Inr (cart', g')
           \<and> (let pid = product_id (h ! p);
                   stock_left = current_stock lp - cart_qty cart pid;
                   added = cart_qty cart' pid - cart_qty cart pid
               in (if 0 < min 3 stock_left
                   then 1 \<le> added \<and> added \<le> min 3 stock_left \<and> added \<le> stock_left
                   else added = 0)
                \<and> (\<forall>pid'. pid' \<noteq> pid \<longrightarrow> map_of cart' pid' = map_of cart pid'))"
    unfolding Let_def pid_def stock_left_def by blast
  then show ?thesis by blast
qed

theorem cart_add_cap_witness:
  "get_product (InventoryManager_init example_catalog) example_catalog ''prod_00001''
     = Some (example_catalog ! 1)
   \<and> add_to_cart (InventoryManager_init example_catalog) example_catalog 1 [] (sconst 4)
     = Inr ([(''prod_00001'', \<lparr>quantity = 1, price = 5\<rparr>)], sconst 4)
   \<and> add_to_cart (InventoryManager_init example_catalog) example_catalog 1
        [(''prod_00001'', \<lparr>quantity = 1, price = 5\<rparr>)] (sconst 4)
     = Inr ([(''prod_00001'', \<lparr>quantity = 2, price = 5\<rparr>)], sconst 4)
   \<and> add_to_cart (InventoryManager_init example_catalog) example_catalog 1
        [(''prod_00001'', \<lparr>quantity = 2, price = 5\<rparr>)] (sconst 4)
     = Inr ([(''prod_00001'', \<lparr>quantity = 2, price = 5\<rparr>)], sconst 4)"
proof -
  have lp: "get_product (InventoryManager_init example_catalog) example_catalog
              (product_id (example_catalog ! 1)) = Some (example_catalog ! 1)"
    by (simp add: get_product_def InventoryManager_init_def example_catalog_def)
  have pid: "product_id (example_catalog ! 1) = ''prod_00001''"
    by (simp add: example_catalog_def)
  have a: "add_to_cart (InventoryManager_init example_catalog) example_catalog 1 [] (sconst 4)
     = Inr ([(''prod_00001'', \<lparr>quantity = 1, price = 5\<rparr>)], sconst 4)"
    "add_to_cart (InventoryManager_init example_catalog) example_catalog 1
        [(''prod_00001'', \<lparr>quantity = 1, price = 5\<rparr>)] (sconst 4)
     = Inr ([(''prod_00001'', \<lparr>quantity = 2, price = 5\<rparr>)], sconst 4)"
    "add_to_cart (InventoryManager_init example_catalog) example_catalog 1
        [(''prod_00001'', \<lparr>quantity = 2, price = 5\<rparr>)] (sconst 4)
     = Inr ([(''prod_00001'', \<lparr>quantity = 2, price = 5\<rparr>)], sconst 4)"
    by (simp_all add: add_to_cart_def get_product_def InventoryManager_init_def example_catalog_def
          randint_def Let_def)
  from cart_add_cap[OF lp, of "[]" "sconst 4"] lp pid a show ?thesis
    by (simp only:)
qed




text \<open>
  C8 (non-empty transactions).  Every transaction emitted by a run has at least one item,
  and the transaction counter is the number of emitted transactions.  An attempt, linked
  or standalone, leaves the transactions and the counter as they were or appends one
  transaction with at least one item and counts it.  A standalone attempt (the target is
  not met, the roll is below 0.2, a user and the products are drawn) whose reservations
  give no item emits nothing and counts nothing, and one whose reservations give items
  appends one transaction of exactly these items and counts it; the same holds of a
  linked attempt and the items reserved from the cart.
\<close>

theorem transactions_non_empty:
  assumes "generate cfg users cs catalog g = Inr st"
  shows "(\<forall>t \<in> set (transactions st). items t \<noteq> [])
       \<and> transaction_counter st = length (transactions st)
       \<and> (\<forall>ivm us s s'. standalone_block cfg us ivm s = Inr s' \<longrightarrow> emits_at_most_one s s')
       \<and> (\<forall>ivm sr s s'. linked_transaction ivm sr s = Inr s' \<longrightarrow>
             emits_at_most_one s s'
           \<and> (fst (snd (reserve_cart ivm (sr_cart sr) (products s) [])) = [] \<longrightarrow>
                transactions s' = transactions s
              \<and> transaction_counter s' = transaction_counter s))
       \<and> (\<forall>ivm us s s' usr g2 ps g3.
             standalone_block cfg us ivm s = Inr s'
           \<and> transaction_counter s < NUM_TRANSACTIONS cfg
           \<and> fst (random_unit (random_state s)) < 2 / 10
           \<and> choice us (snd (random_unit (random_state s))) = Inr (usr, g2)
           \<and> sample [0..<length (products s)] (min 3 (length (products s))) g2 = (ps, g3)
           \<longrightarrow>
             (fst (reserve_products ivm ps (products s) [] g3) = [] \<longrightarrow>
                transactions s' = transactions s
              \<and> transaction_counter s' = transaction_counter s)
           \<and> (fst (reserve_products ivm ps (products s) [] g3) \<noteq> [] \<longrightarrow>
                transaction_counter s' = transaction_counter s + 1
              \<and> (\<exists>t. transactions s' = transactions s @ [t]
                     \<and> items t = fst (reserve_products ivm ps (products s) [] g3))))
       \<and> (\<forall>ivm sr s s'. linked_transaction ivm sr s = Inr s'
           \<and> fst (reserve_cart ivm (sr_cart sr) (products s) [])
           \<and> fst (snd (reserve_cart ivm (sr_cart sr) (products s) [])) \<noteq> [] \<longrightarrow>
                transaction_counter s' = transaction_counter s + 1
              \<and> (\<exists>t. transactions s' = transactions s @ [t]
                     \<and> items t = fst (snd (reserve_cart ivm (sr_cart sr) (products s) []))))"
proof -
  have e: "emitted_ok st" using assms by (rule generate_emitted_ok)
  have a: "\<forall>t \<in> set (transactions st). items t \<noteq> []"
    using e by (simp add: emitted_ok_def transaction_ok_def)
  have b: "transaction_counter st = length (transactions st)"
    using e by (simp add: emitted_ok_def)
  have c: "emits_at_most_one s s'" if "standalone_block cfg us ivm s = Inr s'" for ivm us s s'
    using standalone_block_attempt[OF that] attempt_outcome by blast
  have d: "emits_at_most_one s s'
           \<and> (fst (snd (reserve_cart ivm (sr_cart sr) (products s) [])) = [] \<longrightarrow>
                transactions s' = transactions s
              \<and> transaction_counter s' = transaction_counter s)"
    if "linked_transaction ivm sr s = Inr s'" for ivm sr s s'
  proof -
    from linked_transaction_attempt[OF that] obtain valid new h' where
      r: "reserve_cart ivm (sr_cart sr) (products s) [] = (valid, new, h')"
      and at: "attempt ivm s s' new (valid \<and> new \<noteq> [])" by blast
    have "emits_at_most_one s s'" using at by (rule attempt_outcome)
    moreover have "transactions s' = transactions s \<and> transaction_counter s' = transaction_counter s"
      if "new = []" using at that by (simp add: attempt_def)
    ultimately show ?thesis using r by simp
  qed
  have f: "(fst (reserve_products ivm ps (products s) [] g3) = [] \<longrightarrow>
                transactions s' = transactions s
              \<and> transaction_counter s' = transaction_counter s)
           \<and> (fst (reserve_products ivm ps (products s) [] g3) \<noteq> [] \<longrightarrow>
                transaction_counter s' = transaction_counter s + 1
              \<and> (\<exists>t. transactions s' = transactions s @ [t]
                     \<and> items t = fst (reserve_products ivm ps (products s) [] g3)))"
    if "standalone_block cfg us ivm s = Inr s'"
      "transaction_counter s < NUM_TRANSACTIONS cfg"
      "fst (random_unit (random_state s)) < 2 / 10"
      "choice us (snd (random_unit (random_state s))) = Inr (usr, g2)"
      "sample [0..<length (products s)] (min 3 (length (products s))) g2 = (ps, g3)"
    for ivm us s s' usr g2 ps g3
    using standalone_block_outcome[OF that refl] by (auto simp: priced_from_def)
  have h: "transaction_counter s' = transaction_counter s + 1
              \<and> (\<exists>t. transactions s' = transactions s @ [t]
                     \<and> items t = fst (snd (reserve_cart ivm (sr_cart sr) (products s) [])))"
    if "linked_transaction ivm sr s = Inr s'"
      "fst (reserve_cart ivm (sr_cart sr) (products s) [])"
      "fst (snd (reserve_cart ivm (sr_cart sr) (products s) [])) \<noteq> []"
    for ivm sr s s'
  proof -
    from linked_transaction_attempt[OF that(1)] obtain valid new h' where
      r: "reserve_cart ivm (sr_cart sr) (products s) [] = (valid, new, h')"
      and at: "attempt ivm s s' new (valid \<and> new \<noteq> [])" by blast
    have "valid \<and> new \<noteq> []" using that(2,3) r by simp
    then show ?thesis using at r by (auto simp: attempt_def priced_from_def)
  qed
  have c': "\<forall>ivm us s s'. standalone_block cfg us ivm s = Inr s' \<longrightarrow> emits_at_most_one s s'"
    using c by blast
  have d': "\<forall>ivm sr s s'. linked_transaction ivm sr s = Inr s' \<longrightarrow>
             emits_at_most_one s s'
           \<and> (fst (snd (reserve_cart ivm (sr_cart sr) (products s) [])) = [] \<longrightarrow>
                transactions s' = transactions s
              \<and> transaction_counter s' = transaction_counter s)"
    using d by blast
  have f': "\<forall>ivm us s s' usr g2 ps g3.
             standalone_block cfg us ivm s = Inr s'
           \<and> transaction_counter s < NUM_TRANSACTIONS cfg
           \<and> fst (random_unit (random_state s)) < 2 / 10
           \<and> choice us (snd (random_unit (random_state s))) = Inr (usr, g2)
           \<and> sample [0..<length (products s)] (min 3 (length (products s))) g2 = (ps, g3)
           \<longrightarrow>
             (fst (reserve_products ivm ps (products s) [] g3) = [] \<longrightarrow>
                transactions s' = transactions s
              \<and> transaction_counter s' = transaction_counter s)
           \<and> (fst (reserve_products ivm ps (products s) [] g3) \<noteq> [] \<longrightarrow>
                transaction_counter s' = transaction_counter s + 1
              \<and> (\<exists>t. transactions s' = transactions s @ [t]
                     \<and> items t = fst (reserve_products ivm ps (products s) [] g3)))"
  proof (intro allI impI)
    fix ivm us s s' usr g2 ps g3
    assume "standalone_block cfg us ivm s = Inr s'
           \<and> transaction_counter s < NUM_TRANSACTIONS cfg
           \<and> fst (random_unit (random_state s)) < 2 / 10
           \<and> choice us (snd (random_unit (random_state s))) = Inr (usr, g2)
           \<and> sample [0..<length (products s)] (min 3 (length (products s))) g2 = (ps, g3)"
    then have 1: "standalone_block cfg us ivm s = Inr s'"
      and 2: "transaction_counter s < NUM_TRANSACTIONS cfg"
      and 3: "fst (random_unit (random_state s)) < 2 / 10"
      and 4: "choice us (snd (random_unit (random_state s))) = Inr (usr, g2)"
      and 5: "sample [0..<length (products s)] (min 3 (length (products s))) g2 = (ps, g3)"
      by simp_all
    show "(fst (reserve_products ivm ps (products s) [] g3) = [] \<longrightarrow>
                transactions s' = transactions s
              \<and> transaction_counter s' = transaction_counter s)
           \<and> (fst (reserve_products ivm ps (products s) [] g3) \<noteq> [] \<longrightarrow>
                transaction_counter s' = transaction_counter s + 1
              \<and> (\<exists>t. transactions s' = transactions s @ [t]
                     \<and> items t = fst (reserve_products ivm ps (products s) [] g3)))"
      by (rule f[OF 1 2 3 4 5])
  qed
  have h': "\<forall>ivm sr s s'. linked_transaction ivm sr s = Inr s'
           \<and> fst (reserve_cart ivm (sr_cart sr) (products s) [])
           \<and> fst (snd (reserve_cart ivm (sr_cart sr) (products s) [])) \<noteq> [] \<longrightarrow>
                transaction_counter s' = transaction_counter s + 1
              \<and> (\<exists>t. transactions s' = transactions s @ [t]
                     \<and> items t = fst (snd (reserve_cart ivm (sr_cart sr) (products s) [])))"
    using h by blast
  show ?thesis by (intro conjI a b c' d' f' h')
qed

theorem transactions_non_empty_witness:
  "generate standalone_config example_users example_categories standalone_catalog standalone_draws
     = Inr standalone_final
   \<and> standalone_block standalone_config example_users (InventoryManager_init standalone_catalog)
        (initial_state standalone_catalog standalone_draws) = Inr standalone_skipped
   \<and> transaction_counter (initial_state standalone_catalog standalone_draws)
        < NUM_TRANSACTIONS standalone_config
   \<and> fst (random_unit standalone_draws) = 0
   \<and> choice example_users (snd (random_unit standalone_draws))
        = Inr (\<lparr>user_id = ''user_000000''\<rparr>, [0, 1, 1] @- standalone_second_draws)
   \<and> sample [0..<length standalone_catalog] (min 3 (length standalone_catalog))
          ([0, 1, 1] @- standalone_second_draws)
        = ([0, 1, 2], standalone_second_draws)
   \<and> fst (reserve_products (InventoryManager_init standalone_catalog) [0, 1, 2]
             standalone_catalog [] standalone_second_draws) = []
   \<and> transactions standalone_skipped = []
   \<and> transaction_counter standalone_skipped = 0
   \<and> transactions standalone_final = [standalone_transaction]
   \<and> length (items standalone_transaction) = 1
   \<and> transaction_counter standalone_final = 1"
proof -
  let ?ivm = "InventoryManager_init standalone_catalog"
  let ?s = "initial_state standalone_catalog standalone_draws"
  have p: "products ?s = standalone_catalog" "random_state ?s = standalone_draws"
    "transactions ?s = []" "transaction_counter ?s = 0"
    by (simp_all add: initial_state_def)
  have tc: "transaction_counter ?s < NUM_TRANSACTIONS standalone_config"
    by (simp add: initial_state_def standalone_config_def)
  have u: "fst (random_unit standalone_draws) = 0"
    by (simp add: random_unit_def standalone_draws_def)
  have c: "choice example_users (snd (random_unit standalone_draws))
        = Inr (\<lparr>user_id = ''user_000000''\<rparr>, [0, 1, 1] @- standalone_second_draws)"
    by (simp add: random_unit_def choice_def randbelow_def standalone_draws_def example_users_def)
  have sm: "sample [0..<length standalone_catalog] (min 3 (length standalone_catalog))
          ([0, 1, 1] @- standalone_second_draws)
        = ([0, 1, 2], standalone_second_draws)"
    by (simp add: standalone_catalog_def sample_unfold randbelow_def upt_rec)
  have r: "fst (reserve_products ?ivm [0, 1, 2] standalone_catalog [] standalone_second_draws) = []"
    by (simp add: standalone_catalog_def)
  have t: "transactions standalone_final = [standalone_transaction]"
    "length (items standalone_transaction) = 1"
    by (simp_all add: standalone_final_def standalone_transaction_def)
  note th = transactions_non_empty[OF standalone_run]
  from th have cnt: "transaction_counter standalone_final = length (transactions standalone_final)"
    by blast
  from th have
    "standalone_block standalone_config example_users ?ivm ?s = Inr standalone_skipped
     \<and> transaction_counter ?s < NUM_TRANSACTIONS standalone_config
     \<and> fst (random_unit (random_state ?s)) < 2 / 10
     \<and> choice example_users (snd (random_unit (random_state ?s)))
          = Inr (\<lparr>user_id = ''user_000000''\<rparr>, [0, 1, 1] @- standalone_second_draws)
     \<and> sample [0..<length (products ?s)] (min 3 (length (products ?s)))
          ([0, 1, 1] @- standalone_second_draws)
          = ([0, 1, 2], standalone_second_draws)
     \<longrightarrow>
       (fst (reserve_products ?ivm [0, 1, 2] (products ?s) [] standalone_second_draws) = [] \<longrightarrow>
          transactions standalone_skipped = transactions ?s
        \<and> transaction_counter standalone_skipped = transaction_counter ?s)"
    by blast
  then have k: "transactions standalone_skipped = [] \<and> transaction_counter standalone_skipped = 0"
    using standalone_first tc u c sm r by (simp add: p)
  show ?thesis using standalone_run standalone_first tc u c sm r k t cnt by simp
qed

text \<open>
  C9 (state-machine default), as the code has it.  At a position above 0, a prior page
  type outside the seven known states gives the page type \<open>home\<close> itself, with no draw;
  it is the missing prior (an empty history) that draws from \<open>home\<close>'s distribution, one of
  \<open>category_listing\<close>, \<open>search\<close>, \<open>product_detail\<close> with weights 0.5, 0.3, 0.2.
\<close>

theorem page_type_unknown_prior:
  "0 < position \<Longrightarrow>
     (previous_pages \<noteq> [] \<and> page_type (last previous_pages) \<notin> known_pages \<longrightarrow>
        determine_page_type position previous_pages g = Inr (''home'', g))
   \<and> determine_page_type position [] g =
        Inr (choices [''category_listing'', ''search'', ''product_detail''] [5 / 10, 3 / 10, 2 / 10] g)
   \<and> fst (choices [''category_listing'', ''search'', ''product_detail''] [5 / 10, 3 / 10, 2 / 10] g)
        \<in> {''category_listing'', ''search'', ''product_detail''}"
proof -
  assume pos: "0 < position"
  have a: "determine_page_type position previous_pages g = Inr (''home'', g)"
    if "previous_pages \<noteq> []" "page_type (last previous_pages) \<notin> known_pages"
    using that pos by (simp add: determine_page_type_def known_pages_def)
  have b: "determine_page_type position [] g =
        Inr (choices [''category_listing'', ''search'', ''product_detail''] [5 / 10, 3 / 10, 2 / 10] g)"
    using pos by (simp add: determine_page_type_def)
  have c: "fst (choices [''category_listing'', ''search'', ''product_detail''] [5 / 10, 3 / 10, 2 / 10] g)
        \<in> {''category_listing'', ''search'', ''product_detail''}"
    using choices_in_set[of "[''category_listing'', ''search'', ''product_detail'']" "[5 / 10, 3 / 10, 2 / 10]" g]
    by simp
  from a b c show ?thesis by blast
qed

theorem page_type_unknown_prior_witness:
  "determine_page_type 1 [example_view] (sconst 0) = Inr (''home'', sconst 0)
   \<and> determine_page_type 1 [] (sconst 0) = Inr (''category_listing'', sconst 0)"
  using page_type_unknown_prior[of 1 "[example_view]" "sconst 0"]
  by (simp add: example_view_def known_pages_def choices_def random_unit_def)

text \<open>
  C9 as the specification words it fails at the history \<open>[example_view]\<close>, whose last
  page type \<open>wishlist\<close> is not a known state: the result is \<open>home\<close>, which is none of the
  three page types of \<open>home\<close>'s distribution, and no draw is consumed.
\<close>

theorem page_type_unknown_prior_counterexample:
  "determine_page_type 1 [example_view] (sconst 0) = Inr (''home'', sconst 0)
   \<and> page_type example_view \<notin> known_pages
   \<and> ''home'' \<notin> {''category_listing'', ''search'', ''product_detail''}
   \<and> determine_page_type 1 [example_view] (sconst 0) \<noteq>
       Inr (choices [''category_listing'', ''search'', ''product_detail''] [5 / 10, 3 / 10, 2 / 10] (sconst 0))"
  by (simp add: determine_page_type_def example_view_def known_pages_def choices_def random_unit_def)

text \<open>
  C10 (page-view count).  Every session emitted by a run has a duration between 30 and
  3600 seconds and between 2 and 13 page views; every view duration is positive and the
  timestamps increase strictly along the list.
\<close>

theorem page_view_count_bounds:
  assumes "generate cfg users cs catalog g = Inr st" and "s \<in> set (sessions st)"
  shows "2 \<le> length (page_views s) \<and> length (page_views s) \<le> 13
       \<and> (\<forall>pv \<in> set (page_views s). 0 < view_duration pv)
       \<and> sorted_wrt (<) (map timestamp (page_views s))
       \<and> 30 \<le> duration_seconds s \<and> duration_seconds s \<le> 3600"
proof -
  have "session_ok s" using generate_sessions_ok[OF assms(1)] assms(2) by blast
  then show ?thesis by (simp add: session_ok_def)
qed

theorem page_view_count_bounds_witness:
  "generate example_config example_users example_categories example_catalog example_draws
     = Inr example_final
   \<and> sessions example_final = [example_session]
   \<and> length (page_views example_session) = 4
   \<and> duration_seconds example_session = 30
   \<and> list_all (\<lambda>pv. 0 < view_duration pv) (page_views example_session)"
proof -
  have m: "sessions example_final = [example_session]" by (simp add: example_final_def)
  then have m': "example_session \<in> set (sessions example_final)" by simp
  have v: "length (page_views example_session) = 4" "duration_seconds example_session = 30"
    by (simp_all add: example_session_def)
  from page_view_count_bounds[OF example_run m']
  have "\<forall>pv \<in> set (page_views example_session). 0 < view_duration pv" by blast
  then have "list_all (\<lambda>pv. 0 < view_duration pv) (page_views example_session)"
    by (simp add: list_all_iff)
  then show ?thesis using example_run m v by simp
qed

end
